theory Spec2Isabelle
  imports Main "HOL-Library.Sublist"
begin

section \<open>Text as Python sees it\<close>

text \<open>
  \<^verbatim>\<open>scripts/fix-liquid-syntax.py\<close> reads each file with \<^verbatim>\<open>encoding='utf-8'\<close>, so
  \<^verbatim>\<open>content\<close> is a Python \<^verbatim>\<open>str\<close>: a sequence of Unicode code points. A character
  is modelled by its code point and a \<^verbatim>\<open>str\<close> by a list of them. Literals of the
  script are ASCII and are written as HOL strings through \<open>lit\<close>.
\<close>

type_synonym uchar = nat
type_synonym ustring = "uchar list"

definition lit :: "string \<Rightarrow> ustring" where
  "lit s = map of_char s"

definition NL :: uchar where
  "NL = 10"

definition RAW_OPEN :: ustring where
  "RAW_OPEN = lit ''{% raw %}''"

definition RAW_CLOSE :: ustring where
  "RAW_CLOSE = lit ''{% endraw %}''"

definition FENCE :: ustring where
  "FENCE = lit ''```''"

text \<open>
  The classes \<^verbatim>\<open>\w\<close> and \<^verbatim>\<open>\s\<close> of a \<^verbatim>\<open>str\<close> pattern, and \<^verbatim>\<open>str.strip()\<close>, follow
  the interpreter's Unicode tables. On ASCII they are fixed: \<^verbatim>\<open>\w\<close> is
  \<^verbatim>\<open>[a-zA-Z0-9_]\<close>, and white space is \<^verbatim>\<open>\t \n \v \f \r\<close>, the separators
  \<^verbatim>\<open>0x1c .. 0x1f\<close> and the blank. Beyond ASCII the tables are not part of the
  repository; they are a parameter of the model, and every theorem holds for any tables.
\<close>

record ucd =
  uni_alnum :: "uchar \<Rightarrow> bool"
  uni_space :: "uchar \<Rightarrow> bool"

definition is_word :: "ucd \<Rightarrow> uchar \<Rightarrow> bool" where
  "is_word U c =
     (if c < 128
      then (48 \<le> c \<and> c \<le> 57) \<or> (65 \<le> c \<and> c \<le> 90) \<or> c = 95 \<or> (97 \<le> c \<and> c \<le> 122)
      else uni_alnum U c)"

definition is_space :: "ucd \<Rightarrow> uchar \<Rightarrow> bool" where
  "is_space U c =
     (if c < 128
      then (9 \<le> c \<and> c \<le> 13) \<or> (28 \<le> c \<and> c \<le> 32)
      else uni_space U c)"

text \<open>Tables that classify nothing beyond ASCII, to evaluate the model at ASCII inputs
  (where the tables are never consulted).\<close>

definition ascii_tables :: ucd where
  "ascii_tables = \<lparr>uni_alnum = (\<lambda>c. False), uni_space = (\<lambda>c. False)\<rparr>"

text \<open>\<^verbatim>\<open>sub in s\<close> is \<^const>\<open>sublist\<close>, \<^verbatim>\<open>s.startswith(p)\<close> is \<^const>\<open>prefix\<close>.\<close>

definition strip :: "ucd \<Rightarrow> ustring \<Rightarrow> ustring" where
  "strip U s = rev (dropWhile (is_space U) (rev (dropWhile (is_space U) s)))"

text \<open>\<^verbatim>\<open>s.split('\n')\<close>: always at least one piece; \<^verbatim>\<open>'\n'.join(pieces)\<close>.\<close>

fun split_nl :: "ustring \<Rightarrow> ustring list" where
  "split_nl [] = [[]]"
| "split_nl (c # cs) =
     (if c = NL then [] # split_nl cs
      else (case split_nl cs of
              [] \<Rightarrow> [[c]]
            | l # ls \<Rightarrow> (c # l) # ls))"

fun join_nl :: "ustring list \<Rightarrow> ustring" where
  "join_nl [] = []"
| "join_nl [l] = l"
| "join_nl (l # m # ls) = l @ NL # join_nl (m # ls)"

section \<open>Regular expressions of the script\<close>

text \<open>
  The four patterns are sequences of literals, single character classes and
  repetitions of a character class, greedy (\<^verbatim>\<open>*\<close>, \<^verbatim>\<open>+\<close>) or lazy (\<^verbatim>\<open>*?\<close>).
  \<open>Rep greedy lo p\<close> repeats class \<open>p\<close> at least \<open>lo\<close> times. Characters in
  classes are written by their code points: \<open>36\<close> is \<^verbatim>\<open>$\<close>, \<open>45\<close> is \<^verbatim>\<open>-\<close>,
  \<open>58\<close> is \<^verbatim>\<open>:\<close>, \<open>65\<close> to \<open>90\<close> are \<^verbatim>\<open>A\<close> to \<^verbatim>\<open>Z\<close>, \<open>96\<close> is the backtick,
  \<open>123\<close> is \<^verbatim>\<open>{\<close> and \<open>125\<close> is \<^verbatim>\<open>}\<close>.
\<close>

datatype item =
    Lit ustring
  | One "uchar \<Rightarrow> bool"
  | Rep bool nat "uchar \<Rightarrow> bool"

text \<open>
  The backtracking matcher of \<^verbatim>\<open>re\<close>, anchored at the start of \<open>s\<close>. A repetition
  can take any number of characters up to the run of class characters in front of
  it; a greedy one tries the longest first and gives characters back one by one, a
  lazy one tries the shortest first. The first choice for which the rest of the
  pattern matches wins. The result holds the text each item consumed (their
  concatenation is \<^verbatim>\<open>group(0)\<close>) and the text after the match.
\<close>

definition candidates :: "bool \<Rightarrow> nat \<Rightarrow> (uchar \<Rightarrow> bool) \<Rightarrow> ustring \<Rightarrow> nat list" where
  "candidates greedy lo p s =
     (let ks = [lo ..< Suc (length (takeWhile p s))]
      in if greedy then rev ks else ks)"

fun rmatch :: "item list \<Rightarrow> ustring \<Rightarrow> (ustring list \<times> ustring) option"
  and try_lens :: "item list \<Rightarrow> ustring \<Rightarrow> nat list \<Rightarrow> (ustring list \<times> ustring) option"
where
  "rmatch [] s = Some ([], s)"
| "rmatch (Lit l # r) s =
     (if prefix l s
      then (case rmatch r (drop (length l) s) of
              Some (ps, t) \<Rightarrow> Some (l # ps, t)
            | None \<Rightarrow> None)
      else None)"
| "rmatch (One p # r) s =
     (case s of
        [] \<Rightarrow> None
      | c # cs \<Rightarrow>
          if p c
          then (case rmatch r cs of
                  Some (ps, t) \<Rightarrow> Some ([c] # ps, t)
                | None \<Rightarrow> None)
          else None)"
| "rmatch (Rep greedy lo p # r) s = try_lens r s (candidates greedy lo p s)"
| "try_lens r s [] = None"
| "try_lens r s (k # ks) =
     (case rmatch r (drop k s) of
        Some (ps, t) \<Rightarrow> Some (take k s # ps, t)
      | None \<Rightarrow> try_lens r s ks)"

text \<open>
  \<^verbatim>\<open>re.sub(pattern, repl, string)\<close>: scan from the left; where the pattern matches,
  emit the replacement of the match and go on behind it; elsewhere copy one
  character. None of the four patterns can match the empty string (each starts
  with a literal), so the rules of \<^verbatim>\<open>re\<close> for empty matches are not modelled: an
  empty match counts as no match.
\<close>

function re_sub :: "item list \<Rightarrow> (ustring list \<Rightarrow> ustring) \<Rightarrow> ustring \<Rightarrow> ustring" where
  "re_sub pat f s =
     (case rmatch pat s of
        Some (ps, t) \<Rightarrow>
          if length t < length s then f ps @ re_sub pat f t
          else (case s of [] \<Rightarrow> [] | c # cs \<Rightarrow> c # re_sub pat f cs)
      | None \<Rightarrow> (case s of [] \<Rightarrow> [] | c # cs \<Rightarrow> c # re_sub pat f cs))"
  by pat_completeness auto
termination
  by (relation "measure (\<lambda>(pat, f, s). length s)") auto

text \<open>The template \<^verbatim>\<open>r'{% raw %}\1{% endraw %}'\<close>; in the patterns that use it, group 1
  encloses the whole pattern.\<close>

definition wrap_raw :: "ustring list \<Rightarrow> ustring" where
  "wrap_raw ps = RAW_OPEN @ concat ps @ RAW_CLOSE"


text \<open>
  \<^verbatim>\<open>re.sub(pattern, function, string)\<close>: the same scan, with a function called on each
  match. The function returns the replacement or raises; an exception leaves
  \<^verbatim>\<open>re.sub\<close> at once, at the first match whose call raises.
\<close>

datatype py_error = SyntaxError | FileNotFound | ReadError | WriteError

function re_sub_call ::
  "item list \<Rightarrow> (ustring list \<Rightarrow> py_error + ustring) \<Rightarrow> ustring \<Rightarrow> py_error + ustring" where
  "re_sub_call pat f s =
     (case rmatch pat s of
        Some (ps, t) \<Rightarrow>
          if length t < length s
          then (case f ps of
                  Inl e \<Rightarrow> Inl e
                | Inr r \<Rightarrow>
                    (case re_sub_call pat f t of
                       Inl e \<Rightarrow> Inl e
                     | Inr out \<Rightarrow> Inr (r @ out)))
          else (case s of
                  [] \<Rightarrow> Inr []
                | c # cs \<Rightarrow>
                    (case re_sub_call pat f cs of
                       Inl e \<Rightarrow> Inl e
                     | Inr out \<Rightarrow> Inr (c # out)))
      | None \<Rightarrow>
          (case s of
             [] \<Rightarrow> Inr []
           | c # cs \<Rightarrow>
               (case re_sub_call pat f cs of
                  Inl e \<Rightarrow> Inl e
                | Inr out \<Rightarrow> Inr (c # out))))"
  by pat_completeness auto
termination
  by (relation "measure (\<lambda>(pat, f, s). length s)") auto

section \<open>The four rules of \<^verbatim>\<open>fix_file\<close>\<close>

subsection \<open>Pattern 1: code blocks\<close>

text \<open>\<^verbatim>\<open>r'```(\w*)\n(.*?)```'\<close> with \<^verbatim>\<open>re.DOTALL\<close>: group 1 is the text of the second
  item, group 2 the text of the fourth.\<close>

definition pat1 :: "ucd \<Rightarrow> item list" where
  "pat1 U = [Lit FENCE, Rep True 0 (is_word U), Lit [NL], Rep False 0 (\<lambda>c. True), Lit FENCE]"

definition has_go_marker :: "ustring \<Rightarrow> bool" where
  "has_go_marker block =
     (sublist (lit ''{{.'') block \<or> sublist (lit ''{{if'') block \<or>
      sublist (lit ''{{range'') block \<or> sublist (lit ''{{end}}'') block)"

text \<open>
  For a block that holds a marker and no \<^verbatim>\<open>{% raw %}\<close> the callback comes to line 28,
  \<^verbatim>\<open>return f'{% raw %}\n```{lang}\n{code}```\n{% endraw %}'\<close>. In an f-string a brace
  opens a replacement field, and \<^verbatim>\<open>% raw %\<close> is not an expression: Python rejects the
  line with a \<^verbatim>\<open>SyntaxError\<close>, and no text is ever built by it. The other lines of the
  callback are embedded as they are written, and this branch has the one outcome Python
  gives the line, the error. (Python compiles a file as a whole, so as the file stands
  the error comes up before the first statement runs; the model places it at the line,
  and what is proved below of patterns 2, 3 and 4, of the files and of \<^verbatim>\<open>main\<close> is
  proved of the lines as they are written.)
\<close>

definition wrap_go_templates :: "ustring list \<Rightarrow> py_error + ustring" where
  "wrap_go_templates ps =
     (let block = concat ps in
      if has_go_marker block
      then (if \<not> sublist RAW_OPEN block
            then (let lang = (if ps ! 1 \<noteq> [] then ps ! 1 else []);
                      code = ps ! 3
                  in Inl SyntaxError)
            else Inr block)
      else Inr block)"

definition rule1 :: "ucd \<Rightarrow> ustring \<Rightarrow> py_error + ustring" where
  "rule1 U content = re_sub_call (pat1 U) wrap_go_templates content"

subsection \<open>Pattern 2: inline references, line by line\<close>

text \<open>\<^verbatim>\<open>r'(\{\{\.[\w-]+\}\})'\<close>\<close>

definition pat2 :: "ucd \<Rightarrow> item list" where
  "pat2 U = [Lit (lit ''{{.''), Rep True 1 (\<lambda>c. is_word U c \<or> c = 45), Lit (lit ''}}'')]"

datatype change = Wrapped_go_template nat

text \<open>One round of the \<^verbatim>\<open>for i, line in enumerate(lines)\<close> loop, on the list and the
  change notes as they stand.\<close>

definition inline_step ::
  "ucd \<Rightarrow> ustring list \<times> change list \<Rightarrow> nat \<Rightarrow> ustring list \<times> change list" where
  "inline_step U st i =
     (let lines = fst st; changes = snd st; line = lines ! i in
      if sublist RAW_OPEN line \<or> sublist RAW_CLOSE line \<or> prefix FENCE (strip U line)
      then (lines, changes)
      else if sublist (lit ''{{.'') line \<and> \<not> sublist FENCE line
      then (let lines' = lines[i := re_sub (pat2 U) wrap_raw line] in
            (lines', if lines' ! i \<noteq> line
                     then changes @ [Wrapped_go_template (i + 1)] else changes))
      else (lines, changes))"

definition rule2 :: "ucd \<Rightarrow> ustring \<times> change list \<Rightarrow> ustring \<times> change list" where
  "rule2 U st =
     (let lines = split_nl (fst st);
          st' = foldl (inline_step U) (lines, snd st) [0 ..< length lines]
      in (join_nl (fst st'), snd st'))"

subsection \<open>Pattern 3: GitHub Actions expressions\<close>

text \<open>\<^verbatim>\<open>r'(\$\{\{[^}]+\}\})'\<close>\<close>

definition pat3 :: "item list" where
  "pat3 = [Lit (lit ''${{''), Rep True 1 (\<lambda>c. c \<noteq> 125), Lit (lit ''}}'')]"

definition rule3 :: "ustring \<Rightarrow> ustring" where
  "rule3 content = re_sub pat3 wrap_raw content"

subsection \<open>Pattern 4: Go struct literals\<close>

text \<open>\<^verbatim>\<open>r'(\{\{[A-Z]\w*:\s*[^}]+\}\})'\<close>\<close>

definition pat4 :: "ucd \<Rightarrow> item list" where
  "pat4 U =
     [Lit (lit ''{{''), One (\<lambda>c. 65 \<le> c \<and> c \<le> 90), Rep True 0 (is_word U), Lit (lit '':''),
      Rep True 0 (is_space U), Rep True 1 (\<lambda>c. c \<noteq> 125), Lit (lit ''}}'')]"

definition rule4 :: "ucd \<Rightarrow> ustring \<Rightarrow> ustring" where
  "rule4 U content = re_sub (pat4 U) wrap_raw content"

subsection \<open>The rules in order\<close>

text \<open>The body of \<^verbatim>\<open>fix_file\<close> between reading and comparing: the final content and
  the change notes, or the exception that pattern 1 raised.\<close>

definition apply_rules :: "ucd \<Rightarrow> ustring \<Rightarrow> py_error + (ustring \<times> change list)" where
  "apply_rules U content =
     (let changes = [] in
      case rule1 U content of
        Inl e \<Rightarrow> Inl e
      | Inr content1 \<Rightarrow>
          (let st2 = rule2 U (content1, changes);
               content3 = rule3 (fst st2);
               content4 = rule4 U content3
           in Inr (content4, snd st2)))"

section \<open>Files\<close>

text \<open>
  A path holds text, or something \<^verbatim>\<open>open\<close>/\<^verbatim>\<open>read\<close> cannot deliver as UTF-8 text (a
  directory, bytes that do not decode). The text of a file is what \<^verbatim>\<open>f.read()\<close>
  returns and \<^verbatim>\<open>f.write\<close> takes (text mode: decoded, line ends as Python hands
  them over).

  Writing can fail as well. \<^verbatim>\<open>open(filepath, 'w')\<close> raises when the system refuses the
  file for writing (a file that may be read but not written); nothing is truncated
  then. When it succeeds the file is empty from that moment, and \<^verbatim>\<open>f.write\<close> or the
  closing of the file can still raise (a full disk), which leaves in the file
  whatever had reached it. What the system does with a write to a path is the disk's
  \<open>write_mode\<close> for that path. The disk keeps a log of the reads and writes made, so
  that "no write" can be told from "wrote the same content".
\<close>

datatype entry = Text ustring | Unreadable

datatype wmode = Writable | Refused | Breaks_off ustring

datatype io_event =
    Read_file string
  | Write_file string ustring
  | Write_broken string ustring

record disk =
  files :: "string \<rightharpoonup> entry"
  write_mode :: "string \<Rightarrow> wmode"
  io_log :: "io_event list"

text \<open>\<^verbatim>\<open>with open(filepath, 'w', encoding='utf-8') as f: f.write(content)\<close>: the
  exception raised, if any, and the disk afterwards.\<close>

definition write_text :: "disk \<Rightarrow> string \<Rightarrow> ustring \<Rightarrow> py_error option \<times> disk" where
  "write_text d filepath content =
     (case write_mode d filepath of
        Writable \<Rightarrow>
          (None, d\<lparr>files := (files d)(filepath \<mapsto> Text content),
                   io_log := io_log d @ [Write_file filepath content]\<rparr>)
      | Refused \<Rightarrow> (Some WriteError, d)
      | Breaks_off left \<Rightarrow>
          (Some WriteError, d\<lparr>files := (files d)(filepath \<mapsto> Text left),
                               io_log := io_log d @ [Write_broken filepath left]\<rparr>))"

text \<open>\<^verbatim>\<open>fix_file\<close>: the Boolean returned or the exception raised, and the disk
  afterwards.\<close>

definition fix_file :: "ucd \<Rightarrow> disk \<Rightarrow> string \<Rightarrow> (py_error + bool) \<times> disk" where
  "fix_file U d filepath =
     (case files d filepath of
        None \<Rightarrow> (Inl FileNotFound, d)
      | Some Unreadable \<Rightarrow> (Inl ReadError, d)
      | Some (Text content) \<Rightarrow>
          (let d1 = d\<lparr>io_log := io_log d @ [Read_file filepath]\<rparr>;
               original = content
           in case apply_rules U content of
                Inl e \<Rightarrow> (Inl e, d1)
              | Inr (content4, changes) \<Rightarrow>
                  if content4 \<noteq> original
                  then (case write_text d1 filepath content4 of
                          (Some e, d2) \<Rightarrow> (Inl e, d2)
                        | (None, d2) \<Rightarrow> (Inr True, d2))
                  else (Inr False, d1)))"

section \<open>\<^verbatim>\<open>main\<close>\<close>









section \<open>The variant without change notes\<close>

text \<open>\<^verbatim>\<open>fix_file\<close> with the \<^verbatim>\<open>changes\<close> list and every statement that builds it taken
  out; nothing else is changed.\<close>

definition inline_step_plain :: "ucd \<Rightarrow> ustring list \<Rightarrow> nat \<Rightarrow> ustring list" where
  "inline_step_plain U lines i =
     (let line = lines ! i in
      if sublist RAW_OPEN line \<or> sublist RAW_CLOSE line \<or> prefix FENCE (strip U line)
      then lines
      else if sublist (lit ''{{.'') line \<and> \<not> sublist FENCE line
      then lines[i := re_sub (pat2 U) wrap_raw line]
      else lines)"

definition rule2_plain :: "ucd \<Rightarrow> ustring \<Rightarrow> ustring" where
  "rule2_plain U content =
     (let lines = split_nl content
      in join_nl (foldl (inline_step_plain U) lines [0 ..< length lines]))"

definition fix_file_plain :: "ucd \<Rightarrow> disk \<Rightarrow> string \<Rightarrow> (py_error + bool) \<times> disk" where
  "fix_file_plain U d filepath =
     (case files d filepath of
        None \<Rightarrow> (Inl FileNotFound, d)
      | Some Unreadable \<Rightarrow> (Inl ReadError, d)
      | Some (Text content) \<Rightarrow>
          (let d1 = d\<lparr>io_log := io_log d @ [Read_file filepath]\<rparr>;
               original = content
           in case rule1 U content of
                Inl e \<Rightarrow> (Inl e, d1)
              | Inr content1 \<Rightarrow>
                  (let content4 = rule4 U (rule3 (rule2_plain U content1))
                   in if content4 \<noteq> original
                      then (case write_text d1 filepath content4 of
                              (Some e, d2) \<Rightarrow> (Inl e, d2)
                            | (None, d2) \<Rightarrow> (Inr True, d2))
                      else (Inr False, d1))))"

section \<open>Notions used to state the properties\<close>

text \<open>The texts an item can consume.\<close>

fun fits :: "item \<Rightarrow> ustring \<Rightarrow> bool" where
  "fits (Lit l) x = (x = l)"
| "fits (One p) x = (length x = 1 \<and> list_all p x)"
| "fits (Rep greedy lo p) x = (lo \<le> length x \<and> list_all p x)"



text \<open>\<^verbatim>\<open>s.find(l)\<close>: where \<open>l\<close> first occurs in \<open>s\<close>.\<close>

fun find_sub :: "ustring \<Rightarrow> ustring \<Rightarrow> nat option" where
  "find_sub l [] = (if l = [] then Some 0 else None)"
| "find_sub l (c # cs) =
     (if prefix l (c # cs) then Some 0 else map_option Suc (find_sub l cs))"

text \<open>
  An opening that an attempt of the matcher at the start of \<open>b\<close> has taken, with
  nothing in \<open>b\<close> behind it that ends or stops the match: \<^verbatim>\<open>${{\<close> with no \<^verbatim>\<open>}\<close>
  behind it (pattern 3); \<^verbatim>\<open>{{\<close>, a capital, word characters and a colon, with no
  \<^verbatim>\<open>}\<close> behind it (pattern 4). A match that starts there runs on into the text that
  follows \<open>b\<close>.
\<close>

definition unclosed_expr :: "ustring \<Rightarrow> bool" where
  "unclosed_expr b = (prefix (lit ''${{'') b \<and> 125 \<notin> set (drop 3 b))"

definition unclosed_struct :: "ucd \<Rightarrow> ustring \<Rightarrow> bool" where
  "unclosed_struct U b =
     (prefix (lit ''{{'') b \<and>
      (case drop 2 b of
         [] \<Rightarrow> False
       | c # r1 \<Rightarrow>
           65 \<le> c \<and> c \<le> 90 \<and>
           (case dropWhile (is_word U) r1 of
              [] \<Rightarrow> False
            | d # r3 \<Rightarrow> d = 58 \<and> 125 \<notin> set r3)))"

text \<open>The substitution of pattern 2, which the loop applies to a line, on any text.\<close>

definition inline_sub :: "ucd \<Rightarrow> ustring \<Rightarrow> ustring" where
  "inline_sub U text = re_sub (pat2 U) wrap_raw text"

text \<open>What the loop of pattern 2 leaves in the place of one line.\<close>

definition fix_line :: "ucd \<Rightarrow> ustring \<Rightarrow> ustring" where
  "fix_line U line =
     (if sublist RAW_OPEN line \<or> sublist RAW_CLOSE line \<or> prefix FENCE (strip U line)
      then line
      else if sublist (lit ''{{.'') line \<and> \<not> sublist FENCE line
      then re_sub (pat2 U) wrap_raw line
      else line)"

text \<open>
  An inline token: \<^verbatim>\<open>{{.\<close>, one or more word or hyphen characters, \<^verbatim>\<open>}}\<close>.
  \<open>token_at U s\<close>: \<open>s\<close> starts with a token; \<open>holds_token U x\<close>: a token lies somewhere
  in \<open>x\<close>.
\<close>

definition token_char :: "ucd \<Rightarrow> uchar \<Rightarrow> bool" where
  "token_char U c = (is_word U c \<or> c = 45)"

definition token_at :: "ucd \<Rightarrow> ustring \<Rightarrow> bool" where
  "token_at U s =
     (prefix (lit ''{{.'') s \<and>
      takeWhile (token_char U) (drop 3 s) \<noteq> [] \<and>
      prefix (lit ''}}'') (dropWhile (token_char U) (drop 3 s)))"

definition holds_token :: "ucd \<Rightarrow> ustring \<Rightarrow> bool" where
  "holds_token U x = list_ex (token_at U) (suffixes x)"

text \<open>
  A line cut at its tokens: each piece of \<open>segs\<close> is the text in front of a token and
  the name in the token, \<open>tail\<close> is the text behind the last token. \<open>with_tokens wrap\<close>
  puts the line together again, with \<open>wrap\<close> applied to every token.
\<close>

fun with_tokens ::
  "(ustring \<Rightarrow> ustring) \<Rightarrow> (ustring \<times> ustring) list \<Rightarrow> ustring \<Rightarrow> ustring" where
  "with_tokens wrap [] tail = tail"
| "with_tokens wrap ((front, name) # segs) tail =
     front @ wrap (lit ''{{.'' @ name @ lit ''}}'') @ with_tokens wrap segs tail"

text \<open>
  \<open>inserted M x y\<close>: \<open>y\<close> is \<open>x\<close> with texts of \<open>M\<close> put in at some places, every
  character of \<open>x\<close> kept, in order, and nothing else added.
\<close>

inductive inserted :: "ustring set \<Rightarrow> ustring \<Rightarrow> ustring \<Rightarrow> bool" for M where
  ins_nil: "inserted M [] []"
| ins_keep: "inserted M x y \<Longrightarrow> inserted M (c # x) (c # y)"
| ins_put: "m \<in> M \<Longrightarrow> inserted M x y \<Longrightarrow> inserted M x (m @ y)"

text \<open>\<open>y\<close> holds \<open>x\<close> as a subsequence, is at least as long, and is as long only when
  it is \<open>x\<close>.\<close>

definition grows_only :: "ustring \<Rightarrow> ustring \<Rightarrow> bool" where
  "grows_only x y = (subseq x y \<and> length x \<le> length y \<and> ((length y = length x) = (y = x)))"

section \<open>The matcher and the substitution\<close>

declare re_sub.simps [simp del]

lemma re_sub_None:
  "rmatch pat s = None \<Longrightarrow> re_sub pat f s = (case s of [] \<Rightarrow> [] | c # cs \<Rightarrow> c # re_sub pat f cs)"
  by (subst re_sub.simps) simp

lemma re_sub_Some:
  "rmatch pat s = Some (ps, t) \<Longrightarrow> length t < length s \<Longrightarrow> re_sub pat f s = f ps @ re_sub pat f t"
  by (subst re_sub.simps) simp

lemma re_sub_empty:
  "rmatch pat s = Some (ps, t) \<Longrightarrow> \<not> length t < length s \<Longrightarrow>
   re_sub pat f s = (case s of [] \<Rightarrow> [] | c # cs \<Rightarrow> c # re_sub pat f cs)"
  by (subst re_sub.simps) simp

lemma rmatch_concat_aux:
  "rmatch pat s = Some (ps, t) \<Longrightarrow> s = concat ps @ t"
  "try_lens r s ks = Some (ps, t) \<Longrightarrow> s = concat ps @ t"
proof (induction pat s and r s ks arbitrary: ps t and ps t rule: rmatch_try_lens.induct)
  case (1 s)
  then show ?case by simp
next
  case (2 l r s)
  then show ?case
    by (auto simp: prefix_def split: if_splits option.splits)
next
  case (3 p r s)
  then show ?case by (auto split: list.splits if_splits option.splits)
next
  case (4 greedy lo p r s)
  then show ?case by simp
next
  case (5 r s)
  then show ?case by simp
next
  case (6 r s k ks)
  have "s = take k s @ drop k s" by simp
  with 6 show ?case
    by (auto split: option.splits simp del: append_take_drop_id)
qed

lemma rmatch_concat: "rmatch pat s = Some (ps, t) \<Longrightarrow> s = concat ps @ t"
  by (rule rmatch_concat_aux(1))

lemma set_candidates:
  "k \<in> set (candidates g lo p s) \<longleftrightarrow> lo \<le> k \<and> k \<le> length (takeWhile p s)"
  by (auto simp: candidates_def Let_def)

lemma take_run: "k \<le> length (takeWhile p s) \<Longrightarrow> list_all p (take k s)"
proof -
  assume k: "k \<le> length (takeWhile p s)"
  have "take k s = take k (takeWhile p s @ dropWhile p s)" by simp
  also have "\<dots> = take k (takeWhile p s)" using k by (simp del: takeWhile_dropWhile_id)
  finally have "set (take k s) \<subseteq> set (takeWhile p s)" by (simp add: set_take_subset)
  then show ?thesis by (auto simp: list_all_iff dest: set_takeWhileD)
qed

lemma rmatch_fits_aux:
  "rmatch pat s = Some (ps, t) \<Longrightarrow> list_all2 fits pat ps"
  "try_lens r s ks = Some (ps, t) \<Longrightarrow>
      (\<exists>k qs. ps = take k s # qs \<and> k \<in> set ks \<and> list_all2 fits r qs)"
proof (induction pat s and r s ks arbitrary: ps t and ps t rule: rmatch_try_lens.induct)
  case (1 s)
  then show ?case by simp
next
  case (2 l r s)
  then show ?case by (auto split: if_splits option.splits)
next
  case (3 p r s)
  then show ?case by (auto split: list.splits if_splits option.splits)
next
  case (4 greedy lo p r s)
  have "length (takeWhile p s) \<le> length s" by (rule length_takeWhile_le)
  with 4 show ?case
    by (auto simp: set_candidates take_run)
next
  case (5 r s)
  then show ?case by simp
next
  case (6 r s k ks)
  then show ?case
    by (auto split: option.splits)
qed

lemma rmatch_fits: "rmatch pat s = Some (ps, t) \<Longrightarrow> list_all2 fits pat ps"
  by (rule rmatch_fits_aux(1))


declare re_sub_call.simps [simp del]

lemma re_sub_call_None:
  "rmatch pat s = None \<Longrightarrow>
   re_sub_call pat f s =
     (case s of
        [] \<Rightarrow> Inr []
      | c # cs \<Rightarrow> (case re_sub_call pat f cs of Inl e \<Rightarrow> Inl e | Inr out \<Rightarrow> Inr (c # out)))"
  by (subst re_sub_call.simps) simp

lemma re_sub_call_Some:
  "rmatch pat s = Some (ps, t) \<Longrightarrow> length t < length s \<Longrightarrow>
   re_sub_call pat f s =
     (case f ps of
        Inl e \<Rightarrow> Inl e
      | Inr r \<Rightarrow> (case re_sub_call pat f t of Inl e \<Rightarrow> Inl e | Inr out \<Rightarrow> Inr (r @ out)))"
  by (subst re_sub_call.simps) simp

lemma re_sub_call_empty:
  "rmatch pat s = Some (ps, t) \<Longrightarrow> \<not> length t < length s \<Longrightarrow>
   re_sub_call pat f s =
     (case s of
        [] \<Rightarrow> Inr []
      | c # cs \<Rightarrow> (case re_sub_call pat f cs of Inl e \<Rightarrow> Inl e | Inr out \<Rightarrow> Inr (c # out)))"
  by (subst re_sub_call.simps) simp

text \<open>A function that hands back the match whenever it returns leaves the text as it
  is, whenever the substitution returns.\<close>

lemma re_sub_call_unchanged:
  assumes same: "\<And>ps r. f ps = Inr r \<Longrightarrow> r = concat ps"
  shows "re_sub_call pat f s = Inr out \<Longrightarrow> out = s"
proof (induction s arbitrary: out rule: length_induct)
  case (1 s)
  then have IH: "\<And>t res. length t < length s \<Longrightarrow> re_sub_call pat f t = Inr res \<Longrightarrow> res = t"
    by blast
  note ret = \<open>re_sub_call pat f s = Inr out\<close>
  have skip: "out = s"
    if "re_sub_call pat f s =
          (case s of
             [] \<Rightarrow> Inr []
           | c # cs \<Rightarrow> (case re_sub_call pat f cs of Inl e \<Rightarrow> Inl e | Inr out \<Rightarrow> Inr (c # out)))"
  proof (cases s)
    case Nil
    then show ?thesis using that ret by simp
  next
    case (Cons c cs)
    then show ?thesis using that ret IH[of cs]
      by (auto split: sum.splits)
  qed
  show ?case
  proof (cases "rmatch pat s")
    case None
    then show ?thesis by (intro skip re_sub_call_None)
  next
    case (Some a)
    obtain ps t where a: "a = (ps, t)" by (cases a)
    show ?thesis
    proof (cases "length t < length s")
      case True
      have m: "rmatch pat s = Some (ps, t)" using Some a by simp
      have s: "s = concat ps @ t" using rmatch_concat[OF m] .
      from ret obtain r res where r: "f ps = Inr r" and res: "re_sub_call pat f t = Inr res"
        and out: "out = r @ res"
        unfolding re_sub_call_Some[OF m True] by (auto split: sum.splits)
      have "r = concat ps" using same[OF r] .
      moreover have "res = t" using IH[OF True res] .
      ultimately show ?thesis using out s by simp
    next
      case False
      then show ?thesis using Some a by (intro skip re_sub_call_empty) auto
    qed
  qed
qed

text \<open>Where the pattern matches nowhere, the function is never called.\<close>

lemma re_sub_call_no_match:
  assumes "\<And>a b. s = a @ b \<Longrightarrow> rmatch pat b = None"
  shows "re_sub_call pat f s = Inr s"
  using assms
proof (induction s)
  case Nil
  then show ?case by (simp add: re_sub_call_None)
next
  case (Cons c cs)
  have "rmatch pat (c # cs) = None" using Cons.prems[of "[]" "c # cs"] by simp
  moreover have "re_sub_call pat f cs = Inr cs"
  proof (rule Cons.IH)
    fix a b assume "cs = a @ b"
    then show "rmatch pat b = None" using Cons.prems[of "c # a" b] by simp
  qed
  ultimately show ?case by (simp add: re_sub_call_None)
qed

section \<open>The loop over the lines\<close>

lemma split_nl_nonempty: "split_nl s \<noteq> []"
  by (induction s) (auto split: list.splits)

lemma join_nl_Cons: "ls \<noteq> [] \<Longrightarrow> join_nl (l # ls) = l @ NL # join_nl ls"
  by (cases ls) auto

lemma join_split_nl: "join_nl (split_nl s) = s"
proof (induction s)
  case Nil
  show ?case by simp
next
  case (Cons c cs)
  obtain l ls where sp: "split_nl cs = l # ls"
    using split_nl_nonempty[of cs] by (cases "split_nl cs") auto
  show ?case
  proof (cases "c = NL")
    case True
    then show ?thesis using Cons sp by simp
  next
    case False
    then show ?thesis using Cons sp by (cases ls) auto
  qed
qed

lemma inline_step_fst:
  "fst (inline_step U (ls, ch) i) = ls[i := fix_line U (ls ! i)]"
  by (simp add: inline_step_def fix_line_def Let_def)

lemma inline_step_plain_eq:
  "inline_step_plain U ls i = ls[i := fix_line U (ls ! i)]"
  by (simp add: inline_step_plain_def fix_line_def Let_def)

lemma map_take_update:
  assumes "k < length ls"
  shows "(map f (take k ls) @ drop k ls)[k := f ((map f (take k ls) @ drop k ls) ! k)]
         = map f (take (Suc k) ls) @ drop (Suc k) ls"
proof -
  have d: "drop k ls = ls ! k # drop (Suc k) ls"
    using assms by (simp add: Cons_nth_drop_Suc)
  have n: "(map f (take k ls) @ drop k ls) ! k = ls ! k"
    using assms by (simp add: nth_append)
  have "(map f (take k ls) @ drop k ls)[k := f (ls ! k)]
        = map f (take k ls) @ (drop k ls)[0 := f (ls ! k)]"
    using assms by (simp add: list_update_append)
  also have "\<dots> = map f (take k ls) @ f (ls ! k) # drop (Suc k) ls"
    by (subst d) simp
  also have "\<dots> = map f (take (Suc k) ls) @ drop (Suc k) ls"
    using assms by (simp add: take_Suc_conv_app_nth)
  finally show ?thesis using n by simp
qed

lemma inline_loop_prefix:
  "k \<le> length ls \<Longrightarrow>
   fst (foldl (inline_step U) (ls, ch) [0 ..< k]) = map (fix_line U) (take k ls) @ drop k ls"
proof (induction k)
  case 0
  show ?case by simp
next
  case (Suc k)
  then have k: "k < length ls" and
    IH: "fst (foldl (inline_step U) (ls, ch) [0 ..< k]) = map (fix_line U) (take k ls) @ drop k ls"
    by auto
  obtain ls' ch' where st: "foldl (inline_step U) (ls, ch) [0 ..< k] = (ls', ch')"
    by (cases "foldl (inline_step U) (ls, ch) [0 ..< k]")
  with IH have ls': "ls' = map (fix_line U) (take k ls) @ drop k ls" by simp
  have "fst (foldl (inline_step U) (ls, ch) [0 ..< Suc k]) = ls'[k := fix_line U (ls' ! k)]"
    using st by (simp add: inline_step_fst)
  also have "\<dots> = map (fix_line U) (take (Suc k) ls) @ drop (Suc k) ls"
    unfolding ls' using k by (rule map_take_update)
  finally show ?case .
qed

lemma inline_loop_plain_prefix:
  "k \<le> length ls \<Longrightarrow>
   foldl (inline_step_plain U) ls [0 ..< k] = map (fix_line U) (take k ls) @ drop k ls"
proof (induction k)
  case 0
  show ?case by simp
next
  case (Suc k)
  then have k: "k < length ls" and
    IH: "foldl (inline_step_plain U) ls [0 ..< k] = map (fix_line U) (take k ls) @ drop k ls"
    by auto
  have "foldl (inline_step_plain U) ls [0 ..< Suc k]
        = (map (fix_line U) (take k ls) @ drop k ls)
            [k := fix_line U ((map (fix_line U) (take k ls) @ drop k ls) ! k)]"
    using IH by (simp add: inline_step_plain_eq)
  also have "\<dots> = map (fix_line U) (take (Suc k) ls) @ drop (Suc k) ls"
    using k by (rule map_take_update)
  finally show ?case .
qed

lemma rule2_lines: "fst (rule2 U (content, ch)) = join_nl (map (fix_line U) (split_nl content))"
  by (simp add: rule2_def Let_def inline_loop_prefix)

lemma rule2_plain_lines: "rule2_plain U content = join_nl (map (fix_line U) (split_nl content))"
  by (simp add: rule2_plain_def Let_def inline_loop_plain_prefix)


lemma apply_rules_plain:
  "apply_rules U content =
     (case rule1 U content of
        Inl e \<Rightarrow> Inl e
      | Inr content1 \<Rightarrow>
          Inr (rule4 U (rule3 (rule2_plain U content1)), snd (rule2 U (content1, []))))"
  by (simp add: apply_rules_def Let_def rule2_lines rule2_plain_lines split: sum.splits)

text \<open>
  Claim C8. The list of change notes built by the loop of pattern 2 has no effect on
  what \<^verbatim>\<open>fix_file\<close> does: the variant without it leaves the same disk (the same
  content written, or nothing written) and returns the same Boolean, or raises the
  same error, for every disk, path and tables.
\<close>

theorem change_notes_unobservable:
  "fix_file_plain U d filepath = fix_file U d filepath"
  unfolding fix_file_plain_def fix_file_def apply_rules_plain
  by (simp add: Let_def split: option.splits entry.splits sum.splits)

text \<open>
  Claim C2. Let the file be readable, with content \<open>original\<close>. When pattern 1
  raises, \<^verbatim>\<open>fix_file\<close> raises the same and nothing is written. Otherwise let \<open>new\<close>
  be the result of patterns 2, 3 and 4 applied in this order to the output of pattern 1,
  each to the output of the one before. When \<open>new\<close> is the original content,
  \<^verbatim>\<open>fix_file\<close> returns \<open>False\<close> and has written nothing. When it differs,
  \<^verbatim>\<open>fix_file\<close> writes \<open>new\<close>, and nothing but \<open>new\<close>, to the file: where the system
  takes the write, the file holds \<open>new\<close> and \<open>True\<close> is returned; where it refuses
  the file for writing, \<^verbatim>\<open>fix_file\<close> raises and the file is as before; where the write
  breaks off, \<^verbatim>\<open>fix_file\<close> raises and the file holds what the broken write left. The
  read is logged in every case, and no other path of the disk is touched.
\<close>

theorem fix_file_all_or_nothing:
  assumes "files d filepath = Some (Text original)"
  shows "fix_file U d filepath =
           (case rule1 U original of
              Inl e \<Rightarrow> (Inl e, d\<lparr>io_log := io_log d @ [Read_file filepath]\<rparr>)
            | Inr content1 \<Rightarrow>
                (let new = rule4 U (rule3 (fst (rule2 U (content1, []))))
                 in if new = original
                    then (Inr False, d\<lparr>io_log := io_log d @ [Read_file filepath]\<rparr>)
                    else (case write_mode d filepath of
                            Writable \<Rightarrow>
                              (Inr True,
                               d\<lparr>files := (files d)(filepath \<mapsto> Text new),
                                 io_log := io_log d @ [Read_file filepath, Write_file filepath new]\<rparr>)
                          | Refused \<Rightarrow>
                              (Inl WriteError, d\<lparr>io_log := io_log d @ [Read_file filepath]\<rparr>)
                          | Breaks_off left \<Rightarrow>
                              (Inl WriteError,
                               d\<lparr>files := (files d)(filepath \<mapsto> Text left),
                                 io_log := io_log d @ [Read_file filepath, Write_broken filepath left]\<rparr>)))) \<and>
         (\<forall>other. other \<noteq> filepath \<longrightarrow>
            files (snd (fix_file U d filepath)) other = files d other) \<and>
         write_mode (snd (fix_file U d filepath)) = write_mode d"
  using assms
  by (simp add: fix_file_def apply_rules_def write_text_def Let_def
           split: sum.splits wmode.splits)

theorem fix_file_all_or_nothing_witness:
  "fix_file ascii_tables
     \<lparr>files = [''docs/a.md'' \<mapsto> Text (lit ''url: ${{ secrets.TOKEN }}'')],
      write_mode = (\<lambda>p. Writable), io_log = []\<rparr>
     ''docs/a.md''
   = (Inr True,
      \<lparr>files = [''docs/a.md'' \<mapsto> Text (lit ''url: {% raw %}${{ secrets.TOKEN }}{% endraw %}'')],
       write_mode = (\<lambda>p. Writable),
       io_log = [Read_file ''docs/a.md'',
                 Write_file ''docs/a.md'' (lit ''url: {% raw %}${{ secrets.TOKEN }}{% endraw %}'')]\<rparr>)"
proof -
  let ?d = "\<lparr>files = [''docs/a.md'' \<mapsto> Text (lit ''url: ${{ secrets.TOKEN }}'')],
             write_mode = (\<lambda>p. Writable), io_log = []\<rparr>"
  have f: "files ?d ''docs/a.md'' = Some (Text (lit ''url: ${{ secrets.TOKEN }}''))"
    by simp
  have r: "rule1 ascii_tables (lit ''url: ${{ secrets.TOKEN }}'') = Inr (lit ''url: ${{ secrets.TOKEN }}'')"
    by code_simp
  have e: "rule4 ascii_tables (rule3 (fst (rule2 ascii_tables (lit ''url: ${{ secrets.TOKEN }}'', []))))
           = lit ''url: {% raw %}${{ secrets.TOKEN }}{% endraw %}''"
    by code_simp
  have n: "lit ''url: {% raw %}${{ secrets.TOKEN }}{% endraw %}'' \<noteq> lit ''url: ${{ secrets.TOKEN }}''"
    by (simp add: lit_def)
  show ?thesis
    using fix_file_all_or_nothing[OF f, of ascii_tables, THEN conjunct1] n
    by (simp add: r e Let_def)
qed

text \<open>
  A file that can be read but not written, and one on which the write breaks off
  with nothing written: \<^verbatim>\<open>fix_file\<close> returns neither \<open>False\<close> nor \<open>True\<close>, and after
  the broken write the file holds neither its original content nor the result of the
  rules.
\<close>

theorem write_failure_counterexample:
  "fix_file ascii_tables
     \<lparr>files = [''docs/a.md'' \<mapsto> Text (lit ''url: ${{ secrets.TOKEN }}'')],
      write_mode = (\<lambda>p. Refused), io_log = []\<rparr>
     ''docs/a.md''
   = (Inl WriteError,
      \<lparr>files = [''docs/a.md'' \<mapsto> Text (lit ''url: ${{ secrets.TOKEN }}'')],
       write_mode = (\<lambda>p. Refused), io_log = [Read_file ''docs/a.md'']\<rparr>) \<and>
   fix_file ascii_tables
     \<lparr>files = [''docs/a.md'' \<mapsto> Text (lit ''url: ${{ secrets.TOKEN }}'')],
      write_mode = (\<lambda>p. Breaks_off []), io_log = []\<rparr>
     ''docs/a.md''
   = (Inl WriteError,
      \<lparr>files = [''docs/a.md'' \<mapsto> Text []],
       write_mode = (\<lambda>p. Breaks_off []),
       io_log = [Read_file ''docs/a.md'', Write_broken ''docs/a.md'' []]\<rparr>)"
proof -
  have a: "apply_rules ascii_tables (lit ''url: ${{ secrets.TOKEN }}'')
           = Inr (lit ''url: {% raw %}${{ secrets.TOKEN }}{% endraw %}'', [])"
    by code_simp
  have n: "lit ''url: {% raw %}${{ secrets.TOKEN }}{% endraw %}'' \<noteq> lit ''url: ${{ secrets.TOKEN }}''"
    by (simp add: lit_def)
  show ?thesis
    using n by (simp add: fix_file_def write_text_def a Let_def)
qed

section \<open>Facts about the matcher and the scan\<close>

lemma try_lens_all_None:
  "(\<And>k. k \<in> set ks \<Longrightarrow> rmatch r (drop k s) = None) \<Longrightarrow> try_lens r s ks = None"
  by (induction ks) auto

lemma try_lens_append:
  "try_lens r s (ks1 @ ks2) =
     (case try_lens r s ks1 of Some x \<Rightarrow> Some x | None \<Rightarrow> try_lens r s ks2)"
  by (induction ks1) (auto split: option.splits)

lemma run_nth: "k < length (takeWhile p s) \<Longrightarrow> p (s ! k)"
  by (metis nth_mem set_takeWhileD takeWhile_nth)

lemma Lit_fails_in_run:
  assumes "l \<noteq> []" "\<not> p (hd l)" "k < length (takeWhile p s)"
  shows "rmatch (Lit l # r) (drop k s) = None"
proof -
  have ks: "k < length s" using assms(3) length_takeWhile_le[of p s] by simp
  then have d: "drop k s = s ! k # drop (Suc k) s" by (simp add: Cons_nth_drop_Suc)
  obtain c l' where l: "l = c # l'" using assms(1) by (cases l) auto
  have "p (s ! k)" using assms(3) by (rule run_nth)
  then have "c \<noteq> s ! k" using assms(2) l by auto
  then show ?thesis by (simp add: d l)
qed

lemma rmatch_Rep_Lit:
  assumes "l \<noteq> []" "\<not> p (hd l)"
  shows "rmatch (Rep g lo p # Lit l # r) s =
           (if lo \<le> length (takeWhile p s)
            then (case rmatch (Lit l # r) (dropWhile p s) of
                    Some (ps, t) \<Rightarrow> Some (takeWhile p s # ps, t)
                  | None \<Rightarrow> None)
            else None)"
proof (cases "lo \<le> length (takeWhile p s)")
  case False
  then show ?thesis by (simp add: candidates_def)
next
  case True
  let ?n = "length (takeWhile p s)"
  have up: "[lo ..< Suc ?n] = [lo ..< ?n] @ [?n]" using True by simp
  have low: "try_lens (Lit l # r) s ks = None" if sub: "set ks \<subseteq> {lo ..< ?n}" for ks
  proof (rule try_lens_all_None)
    fix k assume "k \<in> set ks"
    then have "k < ?n" using sub by auto
    then show "rmatch (Lit l # r) (drop k s) = None"
      using Lit_fails_in_run[of l p k s r] assms by blast
  qed
  have last: "try_lens (Lit l # r) s [?n] =
                (case rmatch (Lit l # r) (dropWhile p s) of
                   Some (ps, t) \<Rightarrow> Some (takeWhile p s # ps, t)
                 | None \<Rightarrow> None)"
  proof -
    have tk: "take ?n s = takeWhile p s" by (rule takeWhile_eq_take[symmetric])
    have dk: "drop ?n s = dropWhile p s" by (rule dropWhile_eq_drop[symmetric])
    show ?thesis
      by (simp add: tk dk del: rmatch.simps split: option.splits)
  qed
  have goal: "(if lo \<le> ?n
            then (case rmatch (Lit l # r) (dropWhile p s) of
                    Some (ps, t) \<Rightarrow> Some (takeWhile p s # ps, t)
                  | None \<Rightarrow> None)
            else None) = try_lens (Lit l # r) s [?n]"
    using True last by simp
  show ?thesis
  proof (cases g)
    case True
    have "rmatch (Rep g lo p # Lit l # r) s = try_lens (Lit l # r) s (rev [lo ..< Suc ?n])"
      using True by (simp add: candidates_def Let_def del: upt_Suc)
    also have "\<dots> = (case try_lens (Lit l # r) s [?n] of Some x \<Rightarrow> Some x
             | None \<Rightarrow> try_lens (Lit l # r) s (rev [lo ..< ?n]))"
      unfolding up by (simp only: rev_append rev.simps append_Nil try_lens_append)
    also have "\<dots> = try_lens (Lit l # r) s [?n]"
      using low[of "rev [lo ..< ?n]"] by (simp split: option.splits del: try_lens.simps)
    finally show ?thesis unfolding goal .
  next
    case False
    have "rmatch (Rep g lo p # Lit l # r) s = try_lens (Lit l # r) s [lo ..< Suc ?n]"
      using False by (simp add: candidates_def Let_def del: upt_Suc)
    also have "\<dots> = try_lens (Lit l # r) s [?n]"
      unfolding up try_lens_append using low[of "[lo ..< ?n]"] by simp
    finally show ?thesis unfolding goal .
  qed
qed

lemma re_sub_Nil: "re_sub pat f [] = []"
  by (subst re_sub.simps) (auto split: option.splits)

lemma re_sub_skip:
  assumes "\<And>a b. pre = a @ b \<Longrightarrow> b \<noteq> [] \<Longrightarrow> rmatch pat (b @ rest) = None"
  shows "re_sub pat f (pre @ rest) = pre @ re_sub pat f rest"
  using assms
proof (induction pre)
  case Nil
  show ?case by simp
next
  case (Cons c cs)
  have "rmatch pat ((c # cs) @ rest) = None" using Cons.prems[of "[]" "c # cs"] by simp
  then have "re_sub pat f ((c # cs) @ rest) = c # re_sub pat f (cs @ rest)"
    by (simp add: re_sub_None)
  moreover have "re_sub pat f (cs @ rest) = cs @ re_sub pat f rest"
  proof (rule Cons.IH)
    fix a b assume "cs = a @ b" "b \<noteq> []"
    then show "rmatch pat (b @ rest) = None" using Cons.prems[of "c # a" b] by simp
  qed
  ultimately show ?case by simp
qed

lemma re_sub_local:
  assumes "\<And>a b. pre = a @ b \<Longrightarrow> b \<noteq> [] \<Longrightarrow>
             rmatch pat (b @ rest) = map_option (\<lambda>(ps, t). (ps, t @ rest)) (rmatch pat b)"
  shows "re_sub pat f (pre @ rest) = re_sub pat f pre @ re_sub pat f rest"
  using assms
proof (induction pre rule: length_induct)
  case (1 pre)
  note loc = "1.prems"
  have IH: "re_sub pat f (q @ rest) = re_sub pat f q @ re_sub pat f rest"
    if "length q < length pre" "suffix q pre" for q
  proof -
    from that(2) obtain a0 where a0: "pre = a0 @ q" by (auto simp: suffix_def)
    have "\<And>a b. q = a @ b \<Longrightarrow> b \<noteq> [] \<Longrightarrow>
             rmatch pat (b @ rest) = map_option (\<lambda>(ps, t). (ps, t @ rest)) (rmatch pat b)"
      using loc[of "a0 @ _"] a0 by simp
    with 1(1) that(1) show ?thesis by blast
  qed
  show ?case
  proof (cases pre)
    case Nil
    then show ?thesis by (simp add: re_sub_Nil)
  next
    case (Cons c cs)
    have here: "rmatch pat (pre @ rest) = map_option (\<lambda>(ps, t). (ps, t @ rest)) (rmatch pat pre)"
      using loc[of "[]" pre] Cons by simp
    have tl: "re_sub pat f (cs @ rest) = re_sub pat f cs @ re_sub pat f rest"
      using IH[of cs] Cons by (simp add: suffix_def)
    show ?thesis
    proof (cases "rmatch pat pre")
      case None
      then show ?thesis using here tl Cons by (simp add: re_sub_None)
    next
      case (Some x)
      obtain ps t where x: "x = (ps, t)" by (cases x)
      have pre: "pre = concat ps @ t" using Some x rmatch_concat by blast
      have m2: "rmatch pat (pre @ rest) = Some (ps, t @ rest)" using here Some x by simp
      show ?thesis
      proof (cases "length t < length pre")
        case True
        have "suffix t pre" using pre by (metis suffixI)
        then have "re_sub pat f (t @ rest) = re_sub pat f t @ re_sub pat f rest"
          using IH True by blast
        then show ?thesis using Some x m2 True
          by (simp add: re_sub_Some)
      next
        case False
        then show ?thesis using Some x m2 tl Cons
          by (simp add: re_sub_empty)
      qed
    qed
  qed
qed

section \<open>Pattern 3\<close>

lemma lit_values:
  "lit ''${{'' = [36, 123, 123]" "lit ''}}'' = [125, 125]" "lit ''{{'' = [123, 123]"
  "lit ''{{.'' = [123, 123, 46]" "lit '':'' = [58]" "FENCE = [96, 96, 96]"
  by (simp_all add: lit_def FENCE_def)

lemma lit_lengths:
  "length (lit ''${{'') = 3" "length (lit ''}}'') = 2" "length (lit ''{{'') = 2"
  "length (lit ''{{.'') = 3" "length (lit '':'') = 1" "length FENCE = 3"
  by (simp_all add: lit_def FENCE_def)

lemma rmatch_Lit_last:
  "rmatch [Lit l] s = (if prefix l s then Some ([l], drop (length l) s) else None)"
  by simp

lemma rmatch_pat3:
  "rmatch pat3 s =
     (if prefix (lit ''${{'') s \<and> takeWhile (\<lambda>c. c \<noteq> 125) (drop 3 s) \<noteq> [] \<and>
         prefix (lit ''}}'') (dropWhile (\<lambda>c. c \<noteq> 125) (drop 3 s))
      then Some ([lit ''${{'', takeWhile (\<lambda>c. c \<noteq> 125) (drop 3 s), lit ''}}''],
                 drop 2 (dropWhile (\<lambda>c. c \<noteq> 125) (drop 3 s)))
      else None)"
proof -
  have tail: "rmatch [Rep True 1 (\<lambda>c. c \<noteq> 125), Lit (lit ''}}'')] r =
         (if 1 \<le> length (takeWhile (\<lambda>c. c \<noteq> 125) r)
          then (case rmatch [Lit (lit ''}}'')] (dropWhile (\<lambda>c. c \<noteq> 125) r) of
                  Some (ps, t) \<Rightarrow> Some (takeWhile (\<lambda>c. c \<noteq> 125) r # ps, t)
                | None \<Rightarrow> None)
          else None)" for r
    by (rule rmatch_Rep_Lit) (simp_all add: lit_values)
  have one: "(1 \<le> length v) = (v \<noteq> [])" for v :: ustring
    by (cases v) auto
  show ?thesis
    unfolding pat3_def rmatch.simps(2)[of _ "[Rep True 1 (\<lambda>c. c \<noteq> 125), Lit (lit ''}}'')]"]
      tail one rmatch_Lit_last lit_lengths
    by simp
qed

lemma pat3_hit:
  assumes "X \<noteq> []" "125 \<notin> set X"
  shows "rmatch pat3 (lit ''${{'' @ X @ lit ''}}'' @ post) = Some ([lit ''${{'', X, lit ''}}''], post)"
proof -
  have "takeWhile (\<lambda>c. c \<noteq> 125) (X @ 125 # 125 # post) = X"
    using assms(2) by (subst takeWhile_append2) auto
  moreover have "dropWhile (\<lambda>c. c \<noteq> 125) (X @ 125 # 125 # post) = 125 # 125 # post"
    using assms(2) by (subst dropWhile_append2) auto
  ultimately show ?thesis
    using assms(1) by (simp add: rmatch_pat3 lit_values)
qed

lemma pat3_local:
  assumes "\<not> unclosed_expr b" "b \<noteq> []"
  shows "rmatch pat3 (b @ 36 # x) = map_option (\<lambda>(ps, t). (ps, t @ 36 # x)) (rmatch pat3 b)"
proof (cases "prefix (lit ''${{'') b")
  case False
  then have "\<not> prefix (lit ''${{'') (b @ 36 # x)"
    using assms(2)
    by (cases b; cases "tl b"; cases "tl (tl b)") (auto simp: lit_values)
  with False show ?thesis by (simp add: rmatch_pat3)
next
  case True
  then obtain r where b: "b = [36, 123, 123] @ r"
    by (auto simp: prefix_def lit_values)
  have "125 \<in> set r" using assms(1) True b by (simp add: unclosed_expr_def)
  then have tw: "takeWhile (\<lambda>c. c \<noteq> 125) (r @ 36 # x) = takeWhile (\<lambda>c. c \<noteq> 125) r"
    and dw: "dropWhile (\<lambda>c. c \<noteq> 125) (r @ 36 # x) = dropWhile (\<lambda>c. c \<noteq> 125) r @ 36 # x"
    by (simp_all add: takeWhile_append1 dropWhile_append1)
  have "dropWhile (\<lambda>c. c \<noteq> 125) r \<noteq> []"
    using \<open>125 \<in> set r\<close> by (simp add: dropWhile_eq_Nil_conv) 
  then obtain e' where e: "dropWhile (\<lambda>c. c \<noteq> 125) r = 125 # e'"
    using hd_dropWhile[of "\<lambda>c. c \<noteq> 125" r] by (cases "dropWhile (\<lambda>c. c \<noteq> 125) r") auto
  show ?thesis
    by (cases e') (simp_all add: rmatch_pat3 b lit_values tw dw e)
qed

text \<open>
  Claim C5, amended. Let the document hold \<^verbatim>\<open>${{\<close>, a non-empty text \<open>X\<close> without
  \<^verbatim>\<open>}\<close>, and \<^verbatim>\<open>}}\<close>, and let no \<^verbatim>\<open>${{\<close> before that span be left without a \<^verbatim>\<open>}\<close>
  between it and the span. Then pattern 3 replaces the span by the same span between
  \<^verbatim>\<open>{% raw %}\<close> and \<^verbatim>\<open>{% endraw %}\<close>, wherever it stands, and treats the text before
  and the text after it as it would on their own. (As the claim reads, for every such
  span, it fails: an earlier \<^verbatim>\<open>${{\<close> with no \<^verbatim>\<open>}\<close> behind it starts a match that takes
  the span in, and the two are wrapped as one; see the counterexample below.)
\<close>

theorem expression_wrapped_unless_swallowed:
  assumes "X \<noteq> []" and "125 \<notin> set X" and "\<not> list_ex unclosed_expr (suffixes pre)"
  shows "rule3 (pre @ lit ''${{'' @ X @ lit ''}}'' @ post) =
         rule3 pre @ RAW_OPEN @ lit ''${{'' @ X @ lit ''}}'' @ RAW_CLOSE @ rule3 post"
proof -
  let ?rest = "lit ''${{'' @ X @ lit ''}}'' @ post"
  have r: "?rest = 36 # ([123, 123] @ X @ lit ''}}'' @ post)" by (simp add: lit_values)
  have "re_sub pat3 wrap_raw (pre @ ?rest) = re_sub pat3 wrap_raw pre @ re_sub pat3 wrap_raw ?rest"
  proof (rule re_sub_local)
    fix a b assume "pre = a @ b" "b \<noteq> []"
    then have "\<not> unclosed_expr b" using assms(3) by (auto simp: list_ex_iff suffix_def)
    then show "rmatch pat3 (b @ ?rest) = map_option (\<lambda>(ps, t). (ps, t @ ?rest)) (rmatch pat3 b)"
      unfolding r using \<open>b \<noteq> []\<close> by (rule pat3_local)
  qed
  moreover have "re_sub pat3 wrap_raw ?rest = wrap_raw [lit ''${{'', X, lit ''}}''] @ re_sub pat3 wrap_raw post"
    using pat3_hit[OF assms(1,2)] by (intro re_sub_Some) (auto simp: lit_values)
  ultimately show ?thesis by (simp add: rule3_def wrap_raw_def)
qed

theorem expression_wrapped_unless_swallowed_witness:
  "rule3 (lit ''url: ${{ secrets.TOKEN }}'') = lit ''url: {% raw %}${{ secrets.TOKEN }}{% endraw %}''"
proof -
  have 1: "lit '' secrets.TOKEN '' \<noteq> []" by (simp add: lit_def)
  have 2: "125 \<notin> set (lit '' secrets.TOKEN '')" by (simp add: lit_def)
  have 3: "\<not> list_ex unclosed_expr (suffixes (lit ''url: ''))" by code_simp
  have 4: "rule3 (lit ''url: '') = lit ''url: ''" by code_simp
  have 5: "rule3 [] = []" by code_simp
  have a: "lit ''url: '' @ lit ''${{'' @ lit '' secrets.TOKEN '' @ lit ''}}'' @ []
           = lit ''url: ${{ secrets.TOKEN }}''"
    by (simp add: lit_def)
  have b: "lit ''url: '' @ RAW_OPEN @ lit ''${{'' @ lit '' secrets.TOKEN '' @ lit ''}}'' @ RAW_CLOSE @ []
           = lit ''url: {% raw %}${{ secrets.TOKEN }}{% endraw %}''"
    by (simp add: lit_def RAW_OPEN_def RAW_CLOSE_def)
  from expression_wrapped_unless_swallowed[OF 1 2 3, of "[]"]
  show ?thesis unfolding 4 5 a b .
qed

theorem swallowed_expression_counterexample:
  "rule3 (lit ''${{ opens ${{ secrets.X }}'') = lit ''{% raw %}${{ opens ${{ secrets.X }}{% endraw %}'' \<and>
   \<not> sublist (lit ''{% raw %}${{ secrets.X }}{% endraw %}'')
       (rule3 (lit ''${{ opens ${{ secrets.X }}''))"
  by code_simp

section \<open>Pattern 4\<close>

lemma takeWhile_stop: "\<not> P y \<Longrightarrow> takeWhile P (xs @ y # ys) = takeWhile P xs"
  by (induction xs) auto

lemma dropWhile_stop: "\<not> P y \<Longrightarrow> dropWhile P (xs @ y # ys) = dropWhile P xs @ y # ys"
  by (induction xs) auto

lemma takeWhile_drop_run:
  "k \<le> length (takeWhile Q xs) \<Longrightarrow> (\<And>x. Q x \<Longrightarrow> P x) \<Longrightarrow>
   takeWhile P (drop k xs) = drop k (takeWhile P xs) \<and> dropWhile P (drop k xs) = dropWhile P xs"
proof (induction xs arbitrary: k)
  case Nil
  show ?case by simp
next
  case (Cons x xs)
  show ?case
  proof (cases k)
    case 0
    then show ?thesis by simp
  next
    case (Suc j)
    then have "Q x" and j: "j \<le> length (takeWhile Q xs)"
      using Cons.prems(1) by (auto split: if_splits)
    then have "P x" using Cons.prems(2) by blast
    then show ?thesis using Suc Cons.IH[OF j Cons.prems(2)] by simp
  qed
qed

lemma run_le_run:
  "(\<And>x. Q x \<Longrightarrow> P x) \<Longrightarrow> length (takeWhile Q xs) \<le> length (takeWhile P xs)"
  by (induction xs) auto

lemma space_not_brace: "is_space U c \<Longrightarrow> c \<noteq> 125"
  by (auto simp: is_space_def split: if_splits)

lemma nb_tail:
  "rmatch [Rep True 1 (\<lambda>c. c \<noteq> 125), Lit (lit ''}}'')] r =
     (if takeWhile (\<lambda>c. c \<noteq> 125) r \<noteq> [] \<and> prefix (lit ''}}'') (dropWhile (\<lambda>c. c \<noteq> 125) r)
      then Some ([takeWhile (\<lambda>c. c \<noteq> 125) r, lit ''}}''], drop 2 (dropWhile (\<lambda>c. c \<noteq> 125) r))
      else None)"
proof -
  have tail: "rmatch [Rep True 1 (\<lambda>c. c \<noteq> 125), Lit (lit ''}}'')] r =
         (if 1 \<le> length (takeWhile (\<lambda>c. c \<noteq> 125) r)
          then (case rmatch [Lit (lit ''}}'')] (dropWhile (\<lambda>c. c \<noteq> 125) r) of
                  Some (ps, t) \<Rightarrow> Some (takeWhile (\<lambda>c. c \<noteq> 125) r # ps, t)
                | None \<Rightarrow> None)
          else None)"
    by (rule rmatch_Rep_Lit) (simp_all add: lit_values)
  have one: "(1 \<le> length v) = (v \<noteq> [])" for v :: ustring
    by (cases v) auto
  show ?thesis
    unfolding tail one rmatch_Lit_last lit_lengths by simp
qed

text \<open>The end of pattern 4: white space, then the run up to the closing braces.\<close>

lemma pat4_tail:
  fixes r3 :: ustring and U :: ucd
  defines "v \<equiv> takeWhile (\<lambda>c. c \<noteq> 125) r3"
    and "e \<equiv> dropWhile (\<lambda>c. c \<noteq> 125) r3"
  defines "m \<equiv> length (takeWhile (is_space U) r3)"
  defines "k0 \<equiv> (if m < length v then m else m - 1)"
  shows "rmatch [Rep True 0 (is_space U), Rep True 1 (\<lambda>c. c \<noteq> 125), Lit (lit ''}}'')] r3 =
           (if v \<noteq> [] \<and> prefix (lit ''}}'') e
            then Some ([take k0 r3, drop k0 v, lit ''}}''], drop 2 e)
            else None)"
proof -
  let ?r = "[Rep True 1 (\<lambda>c. c \<noteq> 125), Lit (lit ''}}'')]"
  have q: "rmatch ?r (drop k r3) =
             (if drop k v \<noteq> [] \<and> prefix (lit ''}}'') e
              then Some ([drop k v, lit ''}}''], drop 2 e) else None)" if "k \<le> m" for k
  proof -
    have km: "k \<le> length (takeWhile (is_space U) r3)" using that by (simp add: m_def)
    have imp: "\<And>x. is_space U x \<Longrightarrow> x \<noteq> 125" by (rule space_not_brace)
    from takeWhile_drop_run[of k "is_space U" r3 "\<lambda>c. c \<noteq> 125", OF km imp]
    have tw: "takeWhile (\<lambda>c. c \<noteq> 125) (drop k r3) = drop k v"
      and dw: "dropWhile (\<lambda>c. c \<noteq> 125) (drop k r3) = e"
      by (simp_all add: v_def e_def)
    show ?thesis by (simp only: nb_tail tw dw)
  qed
  have mv: "m \<le> length v"
    unfolding m_def v_def by (rule run_le_run) (rule space_not_brace)
  have unf: "rmatch (Rep True 0 (is_space U) # ?r) r3 = try_lens ?r r3 (rev [0 ..< Suc m])"
    by (simp add: candidates_def Let_def m_def del: upt_Suc)
  show ?thesis
  proof (cases "v \<noteq> [] \<and> prefix (lit ''}}'') e")
    case False
    have "try_lens ?r r3 (rev [0 ..< Suc m]) = None"
    proof (rule try_lens_all_None)
      fix k assume "k \<in> set (rev [0 ..< Suc m])"
      then have "k \<le> m" by auto
      then show "rmatch ?r (drop k r3) = None" using q False by auto
    qed
    then show ?thesis using False unf by simp
  next
    case True
    then have vpos: "0 < length v" by simp
    have k0: "k0 \<le> m" "k0 < length v"
      using mv vpos unfolding k0_def by auto
    have split: "rev [0 ..< Suc m] = rev [Suc k0 ..< Suc m] @ k0 # rev [0 ..< k0]"
    proof -
      have "[0 ..< k0 + (Suc m - k0)] = [0 ..< k0] @ [k0 ..< k0 + (Suc m - k0)]"
        by (rule upt_add_eq_append) simp
      moreover have "k0 + (Suc m - k0) = Suc m" using k0(1) by simp
      ultimately have "[0 ..< k0] @ [k0 ..< Suc m] = [0 ..< Suc m]" by simp
      moreover have "[k0 ..< Suc m] = k0 # [Suc k0 ..< Suc m]"
        using k0(1) by (intro upt_conv_Cons) auto
      ultimately have "[0 ..< Suc m] = [0 ..< k0] @ k0 # [Suc k0 ..< Suc m]" by simp
      then show ?thesis by (simp only: rev_append rev.simps append_assoc append_Cons append_Nil)
    qed
    have above: "try_lens ?r r3 (rev [Suc k0 ..< Suc m]) = None"
    proof (rule try_lens_all_None)
      fix k assume "k \<in> set (rev [Suc k0 ..< Suc m])"
      then have k: "k0 < k" "k \<le> m" by auto
      then have "length v \<le> k" using mv unfolding k0_def by (auto split: if_splits)
      then show "rmatch ?r (drop k r3) = None" using q[OF k(2)] by simp
    qed
    have at: "rmatch ?r (drop k0 r3) = Some ([drop k0 v, lit ''}}''], drop 2 e)"
      using q[OF k0(1)] True k0(2) by simp
    have "try_lens ?r r3 (rev [0 ..< Suc m]) = Some ([take k0 r3, drop k0 v, lit ''}}''], drop 2 e)"
      unfolding split try_lens_append above using at by simp
    then show ?thesis using True unf by simp
  qed
qed


lemma word_facts: "\<not> is_word U 58" "\<not> is_word U 123" "\<not> is_word U 125" "\<not> is_word U 10"
  "\<not> is_word U 96" "\<not> is_space U 125" "\<not> is_space U 96"
  by (simp_all add: is_word_def is_space_def)

lemma rmatch_pat4:
  "rmatch (pat4 U) s =
     (if prefix (lit ''{{'') s
      then (case drop 2 s of
              [] \<Rightarrow> None
            | c # r1 \<Rightarrow>
                if 65 \<le> c \<and> c \<le> 90
                then (case dropWhile (is_word U) r1 of
                        [] \<Rightarrow> None
                      | d # r3 \<Rightarrow>
                          if d = 58
                          then (case rmatch [Rep True 0 (is_space U), Rep True 1 (\<lambda>c. c \<noteq> 125),
                                             Lit (lit ''}}'')] r3 of
                                  Some (ps, t) \<Rightarrow>
                                    Some (lit ''{{'' # [c] # takeWhile (is_word U) r1 # lit '':'' # ps, t)
                                | None \<Rightarrow> None)
                          else None)
                else None)
      else None)"
proof -
  let ?T = "[Rep True 0 (is_space U), Rep True 1 (\<lambda>c. c \<noteq> 125), Lit (lit ''}}'')]"
  have idt: "rmatch (Rep True 0 (is_word U) # Lit (lit '':'') # ?T) r1 =
         (if 0 \<le> length (takeWhile (is_word U) r1)
          then (case rmatch (Lit (lit '':'') # ?T) (dropWhile (is_word U) r1) of
                  Some (ps, t) \<Rightarrow> Some (takeWhile (is_word U) r1 # ps, t)
                | None \<Rightarrow> None)
          else None)" for r1
    by (rule rmatch_Rep_Lit) (simp_all add: lit_values word_facts)
  have colon: "rmatch (Lit (lit '':'') # ?T) r2 =
         (case r2 of [] \<Rightarrow> None
          | d # r3 \<Rightarrow> if d = 58
              then (case rmatch ?T r3 of Some (ps, t) \<Rightarrow> Some (lit '':'' # ps, t) | None \<Rightarrow> None)
              else None)" for r2
  proof -
    have pc: "prefix (lit '':'') r2 = (case r2 of [] \<Rightarrow> False | d # r3 \<Rightarrow> d = 58)"
      by (cases r2) (simp_all add: lit_values)
    show ?thesis
      unfolding rmatch.simps(2) pc lit_lengths
      by (cases r2) (simp_all del: rmatch.simps)
  qed
  have start: "rmatch (pat4 U) s =
         (if prefix (lit ''{{'') s
          then (case drop 2 s of [] \<Rightarrow> None
                | c # r1 \<Rightarrow> if 65 \<le> c \<and> c \<le> 90
                    then (case rmatch (Rep True 0 (is_word U) # Lit (lit '':'') # ?T) r1 of
                            Some (ps, t) \<Rightarrow> Some (lit ''{{'' # [c] # ps, t) | None \<Rightarrow> None)
                    else None)
          else None)"
    unfolding pat4_def rmatch.simps(2) rmatch.simps(3) lit_lengths
    by (auto split: list.splits option.splits)
  show ?thesis
  proof (cases "drop 2 s")
    case Nil
    then show ?thesis unfolding start by simp
  next
    case (Cons c r1)
    show ?thesis
    proof (cases "dropWhile (is_word U) r1")
      case Nil
      show ?thesis unfolding start idt colon by (simp add: \<open>drop 2 s = c # r1\<close> Nil)
    next
      case (Cons d r3)
      show ?thesis unfolding start idt colon
        by (simp add: \<open>drop 2 s = c # r1\<close> Cons split: option.splits del: rmatch.simps)
    qed
  qed
qed

lemma pat4_tail_hit:
  assumes "V \<noteq> []" "125 \<notin> set V"
  shows "\<exists>ps. rmatch [Rep True 0 (is_space U), Rep True 1 (\<lambda>c. c \<noteq> 125), Lit (lit ''}}'')]
               (V @ lit ''}}'' @ post) = Some (ps, post) \<and> concat ps = V @ lit ''}}''"
proof -
  let ?r3 = "V @ lit ''}}'' @ post"
  have v: "takeWhile (\<lambda>c. c \<noteq> 125) ?r3 = V"
    using assms(2) by (subst takeWhile_append2) (auto simp: lit_values)
  have e: "dropWhile (\<lambda>c. c \<noteq> 125) ?r3 = lit ''}}'' @ post"
    using assms(2) by (subst dropWhile_append2) (auto simp: lit_values)
  let ?m = "length (takeWhile (is_space U) ?r3)"
  let ?k = "if ?m < length V then ?m else ?m - 1"
  have "?m \<le> length (takeWhile (\<lambda>c. c \<noteq> 125) ?r3)"
    by (rule run_le_run) (rule space_not_brace)
  then have k: "?k \<le> length V" unfolding v by auto
  have m: "rmatch [Rep True 0 (is_space U), Rep True 1 (\<lambda>c. c \<noteq> 125), Lit (lit ''}}'')] ?r3
           = Some ([take ?k ?r3, drop ?k V, lit ''}}''], post)"
    unfolding pat4_tail v e using assms(1) by (simp add: lit_lengths)
  have "take ?k ?r3 = take ?k V" using k by simp
  moreover have "take ?k V @ drop ?k V @ lit ''}}'' = V @ lit ''}}''"
    by (simp only: append_assoc[symmetric] append_take_drop_id)
  ultimately have "concat [take ?k ?r3, drop ?k V, lit ''}}''] = V @ lit ''}}''"
    by (simp only: concat.simps append_Nil2)
  with m show ?thesis by blast
qed

lemma pat4_hit:
  assumes "65 \<le> c" "c \<le> 90" "list_all (is_word U) idr" "V \<noteq> []" "125 \<notin> set V"
  shows "\<exists>ps. rmatch (pat4 U) (lit ''{{'' @ c # idr @ lit '':'' @ V @ lit ''}}'' @ post) = Some (ps, post)
              \<and> concat ps = lit ''{{'' @ c # idr @ lit '':'' @ V @ lit ''}}''"
proof -
  let ?s = "lit ''{{'' @ c # idr @ lit '':'' @ V @ lit ''}}'' @ post"
  obtain ps where ps: "rmatch [Rep True 0 (is_space U), Rep True 1 (\<lambda>c. c \<noteq> 125), Lit (lit ''}}'')]
               (V @ lit ''}}'' @ post) = Some (ps, post)" and c: "concat ps = V @ lit ''}}''"
    using pat4_tail_hit[OF assms(4,5)] by blast
  have d2: "drop 2 ?s = c # idr @ 58 # V @ lit ''}}'' @ post" by (simp add: lit_values)
  have w: "\<And>x. x \<in> set idr \<Longrightarrow> is_word U x" using assms(3) by (simp add: list_all_iff)
  have tw: "takeWhile (is_word U) (idr @ 58 # V @ lit ''}}'' @ post) = idr"
    using w by (subst takeWhile_append2) (auto simp: word_facts)
  have dw: "dropWhile (is_word U) (idr @ 58 # V @ lit ''}}'' @ post) = 58 # V @ lit ''}}'' @ post"
    using w by (subst dropWhile_append2) (auto simp: word_facts)
  have p: "prefix (lit ''{{'') ?s" by simp
  have "rmatch (pat4 U) ?s = Some (lit ''{{'' # [c] # idr # lit '':'' # ps, post)"
    unfolding rmatch_pat4 d2 using p assms(1,2) by (simp add: tw dw ps del: rmatch.simps One_nat_def)
  moreover have "concat (lit ''{{'' # [c] # idr # lit '':'' # ps) = lit ''{{'' @ c # idr @ lit '':'' @ V @ lit ''}}''"
    using c by simp
  ultimately show ?thesis by blast
qed

lemma pat4_tail_local:
  assumes "125 \<in> set r3"
  shows "rmatch [Rep True 0 (is_space U), Rep True 1 (\<lambda>c. c \<noteq> 125), Lit (lit ''}}'')] (r3 @ 123 # x)
         = map_option (\<lambda>(ps, t). (ps, t @ 123 # x))
             (rmatch [Rep True 0 (is_space U), Rep True 1 (\<lambda>c. c \<noteq> 125), Lit (lit ''}}'')] r3)"
proof -
  have v: "takeWhile (\<lambda>c. c \<noteq> 125) (r3 @ 123 # x) = takeWhile (\<lambda>c. c \<noteq> 125) r3"
    using assms by (simp add: takeWhile_append1)
  have e: "dropWhile (\<lambda>c. c \<noteq> 125) (r3 @ 123 # x) = dropWhile (\<lambda>c. c \<noteq> 125) r3 @ 123 # x"
    using assms by (simp add: dropWhile_append1)
  have m: "takeWhile (is_space U) (r3 @ 123 # x) = takeWhile (is_space U) r3"
    using assms word_facts(6)[of U] by (simp add: takeWhile_append1)
  let ?m = "length (takeWhile (is_space U) r3)"
  let ?v = "takeWhile (\<lambda>c. c \<noteq> 125) r3"
  let ?k = "if ?m < length ?v then ?m else ?m - 1"
  have "?m \<le> length r3" by (rule length_takeWhile_le)
  then have tk: "take ?k (r3 @ 123 # x) = take ?k r3" by auto
  have "dropWhile (\<lambda>c. c \<noteq> 125) r3 \<noteq> []"
    using assms by (simp add: dropWhile_eq_Nil_conv)
  then obtain e' where e': "dropWhile (\<lambda>c. c \<noteq> 125) r3 = 125 # e'"
    using hd_dropWhile[of "\<lambda>c. c \<noteq> 125" r3] by (cases "dropWhile (\<lambda>c. c \<noteq> 125) r3") auto
  show ?thesis
    unfolding pat4_tail v e m tk e'
    by (cases e') (simp_all add: lit_values)
qed

lemma pat4_local:
  assumes "\<not> unclosed_struct U b" "b \<noteq> []"
  shows "rmatch (pat4 U) (b @ 123 # 123 # x)
         = map_option (\<lambda>(ps, t). (ps, t @ 123 # 123 # x)) (rmatch (pat4 U) b)"
proof (cases "prefix (lit ''{{'') b")
  case False
  have "rmatch (pat4 U) (b @ 123 # 123 # x) = None"
  proof (cases "b = [123]")
    case True
    then show ?thesis by (simp add: rmatch_pat4 lit_values)
  next
    case single: False
    then have "\<not> prefix (lit ''{{'') (b @ 123 # 123 # x)"
      using False assms(2) by (cases b; cases "tl b") (auto simp: lit_values)
    then show ?thesis by (simp add: rmatch_pat4)
  qed
  then show ?thesis using False by (simp add: rmatch_pat4)
next
  case True
  then obtain r where b: "b = 123 # 123 # r" by (auto simp: prefix_def lit_values)
  have p: "prefix (lit ''{{'') (b @ 123 # 123 # x)" using True by (simp add: b lit_values)
  show ?thesis
  proof (cases r)
    case Nil
    then show ?thesis by (simp add: rmatch_pat4 b lit_values)
  next
    case (Cons c r1)
    have d2: "drop 2 b = c # r1" "drop 2 (b @ 123 # 123 # x) = c # r1 @ 123 # 123 # x"
      by (simp_all add: b Cons)
    have tw: "takeWhile (is_word U) (r1 @ 123 # 123 # x) = takeWhile (is_word U) r1"
      by (rule takeWhile_stop) (rule word_facts)
    have dw: "dropWhile (is_word U) (r1 @ 123 # 123 # x) = dropWhile (is_word U) r1 @ 123 # 123 # x"
      by (rule dropWhile_stop) (rule word_facts)
    show ?thesis
    proof (cases "65 \<le> c \<and> c \<le> 90")
      case False
      then show ?thesis unfolding rmatch_pat4 d2 using True p by auto
    next
      case upper: True
      show ?thesis
      proof (cases "dropWhile (is_word U) r1")
        case Nil
        show ?thesis unfolding rmatch_pat4 d2 using True p upper
          by (simp add: tw dw Nil del: rmatch.simps)
      next
        case (Cons d r3)
        show ?thesis
        proof (cases "d = 58")
          case False
          then show ?thesis unfolding rmatch_pat4 d2 using True p upper
            by (simp add: tw dw Cons del: rmatch.simps)
        next
          case colon: True
          have "125 \<in> set r3"
            using assms(1) upper Cons colon True
            by (simp add: unclosed_struct_def d2)
          from pat4_tail_local[OF this, of U "123 # x"]
          show ?thesis unfolding rmatch_pat4 d2 using True p upper colon
            by (simp add: tw dw Cons del: rmatch.simps One_nat_def split: option.splits)
        qed
      qed
    qed
  qed
qed


lemma struct_literal_general:
  assumes "65 \<le> c" "c \<le> 90" "list_all (is_word U) idr" "V \<noteq> []" "125 \<notin> set V"
    and "\<not> list_ex (unclosed_struct U) (suffixes pre)"
  shows "rule4 U (pre @ lit ''{{'' @ c # idr @ lit '':'' @ V @ lit ''}}'' @ post) =
         rule4 U pre @ RAW_OPEN @ lit ''{{'' @ c # idr @ lit '':'' @ V @ lit ''}}'' @ RAW_CLOSE
           @ rule4 U post"
proof -
  let ?span = "lit ''{{'' @ c # idr @ lit '':'' @ V @ lit ''}}''"
  let ?rest = "?span @ post"
  obtain y where r: "?rest = 123 # 123 # y" by (simp add: lit_values)
  have "re_sub (pat4 U) wrap_raw (pre @ ?rest)
        = re_sub (pat4 U) wrap_raw pre @ re_sub (pat4 U) wrap_raw ?rest"
  proof (rule re_sub_local)
    fix a b assume "pre = a @ b" "b \<noteq> []"
    then have "\<not> unclosed_struct U b" using assms(6) by (auto simp: list_ex_iff suffix_def)
    then show "rmatch (pat4 U) (b @ ?rest)
               = map_option (\<lambda>(ps, t). (ps, t @ ?rest)) (rmatch (pat4 U) b)"
      unfolding r using \<open>b \<noteq> []\<close> by (rule pat4_local)
  qed
  moreover obtain ps where m: "rmatch (pat4 U) (?span @ post) = Some (ps, post)"
    and c: "concat ps = ?span"
    using pat4_hit[OF assms(1-5), of post] by (auto simp only: append_assoc append_Cons)
  have "length post < length (?span @ post)" by (simp add: lit_values)
  with m have "re_sub (pat4 U) wrap_raw (?span @ post)
               = wrap_raw ps @ re_sub (pat4 U) wrap_raw post"
    by (rule re_sub_Some)
  ultimately show ?thesis using c by (simp add: rule4_def wrap_raw_def)
qed

text \<open>
  Claim C6, amended. Let the document hold \<^verbatim>\<open>{{\<close>, an identifier that starts with a
  capital \<^verbatim>\<open>A-Z\<close> and goes on with word characters, a colon and a blank, a non-empty
  value without \<^verbatim>\<open>}\<close>, and \<^verbatim>\<open>}}\<close>, and let no struct literal opened before that span
  (\<^verbatim>\<open>{{\<close>, capital, word characters, colon) be left without a \<^verbatim>\<open>}\<close> between it and
  the span. Then pattern 4 replaces the span by the same span between \<^verbatim>\<open>{% raw %}\<close>
  and \<^verbatim>\<open>{% endraw %}\<close>, wherever it stands, and treats the text before and the text
  after it as it would on their own. (As the claim reads, for every such span, it
  fails: a literal nested in another is taken in by the match of the outer one; see
  the counterexample below.)
\<close>

theorem struct_literal_wrapped_unless_swallowed:
  assumes "65 \<le> c" and "c \<le> 90" and "list_all (is_word U) idr"
    and "val \<noteq> []" and "125 \<notin> set val"
    and "\<not> list_ex (unclosed_struct U) (suffixes pre)"
  shows "rule4 U (pre @ lit ''{{'' @ c # idr @ lit '': '' @ val @ lit ''}}'' @ post) =
         rule4 U pre @ RAW_OPEN @ lit ''{{'' @ c # idr @ lit '': '' @ val @ lit ''}}'' @ RAW_CLOSE
           @ rule4 U post"
proof -
  have 1: "32 # val \<noteq> []" by simp
  have 2: "125 \<notin> set (32 # val)" using assms(5) by simp
  have l: "lit '': '' @ z = lit '':'' @ 32 # z" for z by (simp add: lit_def)
  show ?thesis
    using struct_literal_general[OF assms(1-3) 1 2 assms(6), of post]
    by (simp add: l)
qed

theorem struct_literal_wrapped_unless_swallowed_witness:
  "rule4 ascii_tables (lit ''x := T{{Name: v}}'') = lit ''x := T{% raw %}{{Name: v}}{% endraw %}''"
proof -
  have 1: "(65::nat) \<le> 78" by simp
  have 2: "(78::nat) \<le> 90" by simp
  have 3: "list_all (is_word ascii_tables) (lit ''ame'')" by code_simp
  have 4: "lit ''v'' \<noteq> []" by (simp add: lit_def)
  have 5: "125 \<notin> set (lit ''v'')" by (simp add: lit_def)
  have 6: "\<not> list_ex (unclosed_struct ascii_tables) (suffixes (lit ''x := T''))" by code_simp
  have 7: "rule4 ascii_tables (lit ''x := T'') = lit ''x := T''" by code_simp
  have 8: "rule4 ascii_tables [] = []" by code_simp
  have a: "lit ''x := T'' @ lit ''{{'' @ 78 # lit ''ame'' @ lit '': '' @ lit ''v'' @ lit ''}}'' @ []
           = lit ''x := T{{Name: v}}''"
    by (simp add: lit_def)
  have b: "lit ''x := T'' @ RAW_OPEN @ lit ''{{'' @ 78 # lit ''ame'' @ lit '': '' @ lit ''v'' @ lit ''}}''
             @ RAW_CLOSE @ []
           = lit ''x := T{% raw %}{{Name: v}}{% endraw %}''"
    by (simp add: lit_def RAW_OPEN_def RAW_CLOSE_def)
  from struct_literal_wrapped_unless_swallowed[OF 1 2 3 4 5 6, of "[]"]
  show ?thesis unfolding 7 8 a b .
qed

theorem nested_struct_literal_counterexample:
  "rule4 ascii_tables (lit ''[]T{{Name: x, Sub: []U{{ID: 1}}}}'')
     = lit ''[]T{% raw %}{{Name: x, Sub: []U{{ID: 1}}{% endraw %}}}'' \<and>
   \<not> sublist (lit ''{% raw %}{{ID: 1}}{% endraw %}'')
       (rule4 ascii_tables (lit ''[]T{{Name: x, Sub: []U{{ID: 1}}}}''))"
  by code_simp

section \<open>Pattern 2\<close>

lemma rmatch_pat2:
  "rmatch (pat2 U) s =
     (if prefix (lit ''{{.'') s \<and> takeWhile (\<lambda>c. is_word U c \<or> c = 45) (drop 3 s) \<noteq> [] \<and>
         prefix (lit ''}}'') (dropWhile (\<lambda>c. is_word U c \<or> c = 45) (drop 3 s))
      then Some ([lit ''{{.'', takeWhile (\<lambda>c. is_word U c \<or> c = 45) (drop 3 s), lit ''}}''],
                 drop 2 (dropWhile (\<lambda>c. is_word U c \<or> c = 45) (drop 3 s)))
      else None)"
proof -
  have tail: "rmatch [Rep True 1 (\<lambda>c. is_word U c \<or> c = 45), Lit (lit ''}}'')] r =
         (if 1 \<le> length (takeWhile (\<lambda>c. is_word U c \<or> c = 45) r)
          then (case rmatch [Lit (lit ''}}'')] (dropWhile (\<lambda>c. is_word U c \<or> c = 45) r) of
                  Some (ps, t) \<Rightarrow> Some (takeWhile (\<lambda>c. is_word U c \<or> c = 45) r # ps, t)
                | None \<Rightarrow> None)
          else None)" for r
    by (rule rmatch_Rep_Lit) (simp_all add: lit_values word_facts)
  have one: "(1 \<le> length v) = (v \<noteq> [])" for v :: ustring
    by (cases v) auto
  show ?thesis
    unfolding pat2_def rmatch.simps(2)[of _ "[Rep True 1 (\<lambda>c. is_word U c \<or> c = 45), Lit (lit ''}}'')]"]
      tail one rmatch_Lit_last lit_lengths
    by simp
qed

lemma pat2_hit:
  assumes "w \<noteq> []" "list_all (\<lambda>c. is_word U c \<or> c = 45) w"
  shows "rmatch (pat2 U) (lit ''{{.'' @ w @ lit ''}}'' @ post) = Some ([lit ''{{.'', w, lit ''}}''], post)"
proof -
  have a: "\<And>x. x \<in> set w \<Longrightarrow> is_word U x \<or> x = 45" using assms(2) by (simp add: list_all_iff)
  have "takeWhile (\<lambda>c. is_word U c \<or> c = 45) (w @ 125 # 125 # post) = w"
    using a by (subst takeWhile_append2) (auto simp: word_facts)
  moreover have "dropWhile (\<lambda>c. is_word U c \<or> c = 45) (w @ 125 # 125 # post) = 125 # 125 # post"
    using a by (subst dropWhile_append2) (auto simp: word_facts)
  ultimately show ?thesis
    using assms(1) by (simp add: rmatch_pat2 lit_values)
qed

lemma pat2_local:
  assumes "b \<noteq> []"
  shows "rmatch (pat2 U) (b @ 123 # 123 # x)
         = map_option (\<lambda>(ps, t). (ps, t @ 123 # 123 # x)) (rmatch (pat2 U) b)"
proof (cases "prefix (lit ''{{.'') b")
  case False
  then have "\<not> prefix (lit ''{{.'') (b @ 123 # 123 # x)"
    using assms
    by (cases b; cases "tl b"; cases "tl (tl b)") (auto simp: lit_values)
  with False show ?thesis by (simp add: rmatch_pat2)
next
  case True
  then obtain r where b: "b = [123, 123, 46] @ r"
    by (auto simp: prefix_def lit_values)
  let ?P = "\<lambda>c. is_word U c \<or> c = 45"
  have nP: "\<not> ?P 123" by (simp add: word_facts)
  have tw: "takeWhile ?P (r @ 123 # 123 # x) = takeWhile ?P r"
    using nP by (rule takeWhile_stop)
  have dw: "dropWhile ?P (r @ 123 # 123 # x) = dropWhile ?P r @ 123 # 123 # x"
    using nP by (rule dropWhile_stop)
  show ?thesis
  proof (cases "dropWhile ?P r")
    case Nil
    show ?thesis by (simp add: rmatch_pat2 b lit_values tw dw Nil)
  next
    case (Cons c e')
    show ?thesis by (cases e') (simp_all add: rmatch_pat2 b lit_values tw dw Cons)
  qed
qed

lemma inline_sub_token:
  assumes "w \<noteq> []" "list_all (\<lambda>c. is_word U c \<or> c = 45) w"
  shows "inline_sub U (a @ lit ''{{.'' @ w @ lit ''}}'' @ b) =
         inline_sub U a @ RAW_OPEN @ lit ''{{.'' @ w @ lit ''}}'' @ RAW_CLOSE @ inline_sub U b"
proof -
  let ?rest = "lit ''{{.'' @ w @ lit ''}}'' @ b"
  obtain y where r: "?rest = 123 # 123 # y" by (simp add: lit_values)
  have "re_sub (pat2 U) wrap_raw (a @ ?rest)
        = re_sub (pat2 U) wrap_raw a @ re_sub (pat2 U) wrap_raw ?rest"
  proof (rule re_sub_local)
    fix a' b' :: ustring assume "b' \<noteq> []"
    then show "rmatch (pat2 U) (b' @ ?rest)
               = map_option (\<lambda>(ps, t). (ps, t @ ?rest)) (rmatch (pat2 U) b')"
      unfolding r by (rule pat2_local)
  qed
  moreover have "re_sub (pat2 U) wrap_raw ?rest
                 = wrap_raw [lit ''{{.'', w, lit ''}}''] @ re_sub (pat2 U) wrap_raw b"
    using pat2_hit[OF assms] by (intro re_sub_Some) (auto simp: lit_values)
  ultimately show ?thesis by (simp add: inline_sub_def wrap_raw_def)
qed

lemma inline_sub_plain:
  assumes "\<not> sublist (lit ''{{.'') x"
  shows "inline_sub U x = x"
proof -
  have "re_sub (pat2 U) wrap_raw (x @ []) = x @ re_sub (pat2 U) wrap_raw []"
  proof (rule re_sub_skip)
    fix a b assume "x = a @ b"
    then have "\<not> prefix (lit ''{{.'') b"
      using assms by (auto simp: sublist_def prefix_def)
    then show "rmatch (pat2 U) (b @ []) = None" by (simp add: rmatch_pat2)
  qed
  then show ?thesis by (simp add: inline_sub_def re_sub_Nil)
qed

lemma split_nl_single: "NL \<notin> set l \<Longrightarrow> split_nl l = [l]"
  by (induction l) auto

lemma sublist_strip: "sublist (strip U l) l"
proof -
  have "suffix (dropWhile (is_space U) l) l" by (rule suffix_dropWhile)
  moreover have "prefix (strip U l) (dropWhile (is_space U) l)"
    unfolding strip_def
    using suffix_dropWhile[of "is_space U" "rev (dropWhile (is_space U) l)"]
    by (simp add: suffix_to_prefix)
  ultimately show ?thesis
    by (meson prefix_imp_sublist suffix_imp_sublist sublist_order.order_trans)
qed

lemma fix_line_guarded:
  assumes "\<not> sublist RAW_OPEN line" "\<not> sublist RAW_CLOSE line" "\<not> sublist FENCE line"
    and "sublist (lit ''{{.'') line"
  shows "fix_line U line = inline_sub U line"
proof -
  have "\<not> prefix FENCE (strip U line)"
    using assms(3) sublist_strip[of U line]
    by (meson prefix_imp_sublist sublist_order.order_trans)
  then show ?thesis using assms by (simp add: fix_line_def inline_sub_def)
qed

lemma token_char_fun: "token_char U = (\<lambda>c. is_word U c \<or> c = 45)"
  by (rule ext) (simp add: token_char_def)

lemma rmatch_pat2_token: "(rmatch (pat2 U) s = None) = (\<not> token_at U s)"
  by (simp add: rmatch_pat2 token_at_def token_char_fun)

text \<open>The two notions in words: a text starts with a token, a text holds a token.\<close>

lemma token_at_iff:
  "token_at U s \<longleftrightarrow>
     (\<exists>name rest. s = lit ''{{.'' @ name @ lit ''}}'' @ rest \<and>
                  name \<noteq> [] \<and> list_all (token_char U) name)"
proof
  assume t: "token_at U s"
  let ?P = "token_char U"
  from t obtain r where s: "s = lit ''{{.'' @ r"
    by (auto simp: token_at_def prefix_def)
  have r: "drop 3 s = r" unfolding s by (simp add: lit_lengths)
  from t obtain rest where d: "dropWhile ?P r = lit ''}}'' @ rest"
    unfolding token_at_def r by (auto simp: prefix_def)
  have "r = takeWhile ?P r @ dropWhile ?P r" by simp
  then have "s = lit ''{{.'' @ takeWhile ?P r @ lit ''}}'' @ rest"
    unfolding s d by simp
  moreover have "takeWhile ?P r \<noteq> []" using t unfolding token_at_def r by simp
  moreover have "list_all ?P (takeWhile ?P r)"
    by (auto simp: list_all_iff dest: set_takeWhileD)
  ultimately show "\<exists>name rest. s = lit ''{{.'' @ name @ lit ''}}'' @ rest \<and>
                    name \<noteq> [] \<and> list_all (token_char U) name"
    by blast
next
  assume "\<exists>name rest. s = lit ''{{.'' @ name @ lit ''}}'' @ rest \<and>
            name \<noteq> [] \<and> list_all (token_char U) name"
  then obtain name rest where s: "s = lit ''{{.'' @ name @ lit ''}}'' @ rest"
    and n: "name \<noteq> []" and a: "list_all (token_char U) name"
    by blast
  have "rmatch (pat2 U) s = Some ([lit ''{{.'', name, lit ''}}''], rest)"
    unfolding s using n a by (intro pat2_hit) (simp_all add: token_char_fun)
  then show "token_at U s" using rmatch_pat2_token[of U s] by simp
qed

lemma holds_token_split: "holds_token U x \<longleftrightarrow> (\<exists>a s. x = a @ s \<and> token_at U s)"
proof
  assume "holds_token U x"
  then obtain s where "s \<in> set (suffixes x)" "token_at U s"
    unfolding holds_token_def list_ex_iff by blast
  then have "suffix s x" "token_at U s" by (simp_all add: in_set_suffixes)
  then show "\<exists>a s. x = a @ s \<and> token_at U s"
    unfolding suffix_def by blast
next
  assume "\<exists>a s. x = a @ s \<and> token_at U s"
  then obtain a s where "x = a @ s" "token_at U s" by blast
  then have "s \<in> set (suffixes x)" "token_at U s"
    by (simp_all add: in_set_suffixes suffix_def)
  then show "holds_token U x"
    unfolding holds_token_def list_ex_iff by blast
qed

lemma holds_token_iff:
  "holds_token U x \<longleftrightarrow>
     (\<exists>a name b. x = a @ lit ''{{.'' @ name @ lit ''}}'' @ b \<and>
                 name \<noteq> [] \<and> list_all (token_char U) name)"
proof
  assume "holds_token U x"
  then obtain a s where x: "x = a @ s" and "token_at U s"
    unfolding holds_token_split by blast
  then obtain name rest where "s = lit ''{{.'' @ name @ lit ''}}'' @ rest"
    "name \<noteq> []" "list_all (token_char U) name"
    unfolding token_at_iff by blast
  then show "\<exists>a name b. x = a @ lit ''{{.'' @ name @ lit ''}}'' @ b \<and>
                 name \<noteq> [] \<and> list_all (token_char U) name"
    using x by blast
next
  assume "\<exists>a name b. x = a @ lit ''{{.'' @ name @ lit ''}}'' @ b \<and>
                 name \<noteq> [] \<and> list_all (token_char U) name"
  then obtain a name b where x: "x = a @ lit ''{{.'' @ name @ lit ''}}'' @ b"
    and n: "name \<noteq> []" "list_all (token_char U) name"
    by blast
  have "token_at U (lit ''{{.'' @ name @ lit ''}}'' @ b)"
    unfolding token_at_iff using n by blast
  then show "holds_token U x"
    unfolding holds_token_split using x by blast
qed

lemma inline_sub_no_token:
  assumes "\<not> holds_token U x"
  shows "inline_sub U x = x"
proof -
  have "re_sub (pat2 U) wrap_raw (x @ []) = x @ re_sub (pat2 U) wrap_raw []"
  proof (rule re_sub_skip)
    fix a b assume "x = a @ b"
    then have "\<not> token_at U b"
      using assms unfolding holds_token_split by blast
    then show "rmatch (pat2 U) (b @ []) = None" by (simp add: rmatch_pat2_token)
  qed
  then show ?thesis by (simp add: inline_sub_def re_sub_Nil)
qed

lemma inline_sub_with_tokens:
  assumes "list_all (\<lambda>(front, name). \<not> holds_token U front \<and> name \<noteq> [] \<and>
                                       list_all (token_char U) name) segs"
    and "\<not> holds_token U tail"
  shows "inline_sub U (with_tokens (\<lambda>t. t) segs tail)
         = with_tokens (\<lambda>t. RAW_OPEN @ t @ RAW_CLOSE) segs tail"
  using assms
proof (induction segs)
  case Nil
  then show ?case by (simp add: inline_sub_no_token)
next
  case (Cons seg segs)
  obtain front name where seg: "seg = (front, name)" by (cases seg)
  have f: "\<not> holds_token U front" and n: "name \<noteq> []"
    and a: "list_all (\<lambda>c. is_word U c \<or> c = 45) name"
    using Cons.prems(1) seg by (simp_all add: token_char_fun)
  have rest: "inline_sub U (with_tokens (\<lambda>t. t) segs tail)
              = with_tokens (\<lambda>t. RAW_OPEN @ t @ RAW_CLOSE) segs tail"
    using Cons.prems by (intro Cons.IH) simp_all
  show ?case
    unfolding seg with_tokens.simps
    using inline_sub_token[OF n a, of front "with_tokens (\<lambda>t. t) segs tail"]
    by (simp add: inline_sub_no_token[OF f] rest)
qed

text \<open>Every text can be cut so: at its first token, then at the first token of what
  follows it, and so on.\<close>

lemma every_line_is_cut:
  "\<exists>segs tail.
     x = with_tokens (\<lambda>t. t) segs tail \<and>
     list_all (\<lambda>(front, name). \<not> holds_token U front \<and> name \<noteq> [] \<and>
                                list_all (token_char U) name) segs \<and>
     \<not> holds_token U tail"
proof (induction x rule: length_induct)
  case (1 x)
  let ?ok = "\<lambda>(front, name). \<not> holds_token U front \<and> name \<noteq> [] \<and>
                                list_all (token_char U) name"
  show ?case
  proof (cases "holds_token U x")
    case False
    then have "x = with_tokens (\<lambda>t. t) [] x \<and> list_all ?ok [] \<and> \<not> holds_token U x"
      by simp
    then show ?thesis by blast
  next
    case True
    let ?Q = "\<lambda>k. \<exists>a name b. length a = k \<and> x = a @ lit ''{{.'' @ name @ lit ''}}'' @ b \<and>
                              name \<noteq> [] \<and> list_all (token_char U) name"
    from True have "\<exists>k. ?Q k" unfolding holds_token_iff by blast
    then obtain k where k: "?Q k" and least: "\<forall>j<k. \<not> ?Q j"
      unfolding exists_least_iff[of ?Q] by blast
    from k obtain a name b where la: "length a = k"
      and x: "x = a @ lit ''{{.'' @ name @ lit ''}}'' @ b"
      and n: "name \<noteq> []" and al: "list_all (token_char U) name"
      by blast
    have front: "\<not> holds_token U a"
    proof
      assume "holds_token U a"
      then obtain a' name' b' where a: "a = a' @ lit ''{{.'' @ name' @ lit ''}}'' @ b'"
        and n': "name' \<noteq> []" and al': "list_all (token_char U) name'"
        unfolding holds_token_iff by blast
      have "length a' < k" unfolding la[symmetric] a by (simp add: lit_lengths)
      moreover have "?Q (length a')"
      proof -
        have "x = a' @ lit ''{{.'' @ name' @ lit ''}}'' @ (b' @ lit ''{{.'' @ name @ lit ''}}'' @ b)"
          unfolding x a by simp
        then show ?thesis using n' al' by blast
      qed
      ultimately show False using least by blast
    qed
    have "length b < length x" unfolding x by (simp add: lit_lengths)
    with 1 obtain segs tail where b: "b = with_tokens (\<lambda>t. t) segs tail"
      and s: "list_all ?ok segs" and t: "\<not> holds_token U tail"
      by blast
    have "x = with_tokens (\<lambda>t. t) ((a, name) # segs) tail"
      unfolding x b by simp
    moreover have "list_all ?ok ((a, name) # segs)"
      using front n al s by simp
    ultimately show ?thesis using t by blast
  qed
qed

lemma fix_line_is_inline_sub:
  assumes "\<not> sublist RAW_OPEN line" "\<not> sublist RAW_CLOSE line" "\<not> sublist FENCE line"
  shows "fix_line U line = inline_sub U line"
proof (cases "sublist (lit ''{{.'') line")
  case True
  then show ?thesis using assms by (intro fix_line_guarded)
next
  case False
  then have "inline_sub U line = line" by (rule inline_sub_plain)
  moreover have "fix_line U line = line" using False by (simp add: fix_line_def)
  ultimately show ?thesis by simp
qed

lemma split_nl_append: "split_nl (x @ NL # y) = split_nl x @ split_nl y"
proof (induction x)
  case Nil
  show ?case by simp
next
  case (Cons c x)
  obtain l ls where sp: "split_nl x = l # ls"
    using split_nl_nonempty[of x] by (cases "split_nl x") auto
  show ?case using Cons sp by simp
qed

lemma join_nl_append:
  "a \<noteq> [] \<Longrightarrow> b \<noteq> [] \<Longrightarrow> join_nl (a @ b) = join_nl a @ NL # join_nl b"
proof (induction a rule: join_nl.induct)
  case 1
  then show ?case by simp
next
  case (2 l)
  then show ?case by (simp add: join_nl_Cons)
next
  case (3 l m ls)
  then show ?case by simp
qed

lemma rule2_lines_apart:
  "fst (rule2 U (x @ NL # y, changes))
   = fst (rule2 U (x, changes)) @ NL # fst (rule2 U (y, changes))"
  unfolding rule2_lines split_nl_append map_append
  by (rule join_nl_append) (simp_all add: split_nl_nonempty)

text \<open>
  Claim C4. Let a line hold neither \<^verbatim>\<open>{% raw %}\<close> nor \<^verbatim>\<open>{% endraw %}\<close> nor a triple
  backtick, and let it be cut at its tokens (\<^verbatim>\<open>{{.\<close>, one or more word or hyphen
  characters, \<^verbatim>\<open>}}\<close>): the texts in front of the tokens and the text behind the last
  one hold no token. Then pattern 2 puts in the place of the line the same pieces, with
  every token between \<^verbatim>\<open>{% raw %}\<close> and \<^verbatim>\<open>{% endraw %}\<close> and every other piece as it
  was. A content is treated line by line: the result for two texts with a newline
  between them is the results for the two texts with the newline between them.
\<close>

theorem inline_tokens_wrapped:
  assumes "NL \<notin> set line"
    and "\<not> sublist RAW_OPEN line" and "\<not> sublist RAW_CLOSE line" and "\<not> sublist FENCE line"
    and "line = with_tokens (\<lambda>t. t) segs tail"
    and "list_all (\<lambda>(front, name). \<not> holds_token U front \<and> name \<noteq> [] \<and>
                                     list_all (token_char U) name) segs"
    and "\<not> holds_token U tail"
  shows "fst (rule2 U (line, changes))
           = with_tokens (\<lambda>t. RAW_OPEN @ t @ RAW_CLOSE) segs tail \<and>
         fst (rule2 U (earlier @ [NL] @ line, changes))
           = fst (rule2 U (earlier, changes)) @ [NL] @
             with_tokens (\<lambda>t. RAW_OPEN @ t @ RAW_CLOSE) segs tail \<and>
         fst (rule2 U (line @ [NL] @ later, changes))
           = with_tokens (\<lambda>t. RAW_OPEN @ t @ RAW_CLOSE) segs tail @ [NL] @
             fst (rule2 U (later, changes)) \<and>
         fst (rule2 U (earlier @ [NL] @ line @ [NL] @ later, changes))
           = fst (rule2 U (earlier, changes)) @ [NL] @
             with_tokens (\<lambda>t. RAW_OPEN @ t @ RAW_CLOSE) segs tail @ [NL] @
             fst (rule2 U (later, changes))"
proof -
  have "fix_line U line = inline_sub U line"
    using assms(2-4) by (rule fix_line_is_inline_sub)
  also have "\<dots> = with_tokens (\<lambda>t. RAW_OPEN @ t @ RAW_CLOSE) segs tail"
    unfolding assms(5) using assms(6,7) by (rule inline_sub_with_tokens)
  finally have l: "fix_line U line = with_tokens (\<lambda>t. RAW_OPEN @ t @ RAW_CLOSE) segs tail" .
  have one: "fst (rule2 U (line, changes))
             = with_tokens (\<lambda>t. RAW_OPEN @ t @ RAW_CLOSE) segs tail"
    using assms(1) l by (simp add: rule2_lines split_nl_single)
  have a: "fst (rule2 U (x @ [NL] @ y, changes))
           = fst (rule2 U (x, changes)) @ [NL] @ fst (rule2 U (y, changes))" for x y
    using rule2_lines_apart[of U x y changes] by simp
  show ?thesis
    unfolding a one by simp
qed

text \<open>The example of the specification; \<open>34\<close> is the double quote.\<close>

theorem inline_tokens_wrapped_witness:
  "fst (rule2 ascii_tables (lit ''Output: '' @ 34 # lit ''Hello, {{.name}}!'' @ [34], []))
   = lit ''Output: '' @ 34 # lit ''Hello, {% raw %}{{.name}}{% endraw %}!'' @ [34]"
proof -
  let ?line = "lit ''Output: '' @ 34 # lit ''Hello, {{.name}}!'' @ [34]"
  let ?a = "lit ''Output: '' @ 34 # lit ''Hello, ''"
  let ?b = "lit ''!'' @ [34]"
  have 1: "NL \<notin> set ?line" by (simp add: lit_def NL_def)
  have 2: "\<not> sublist RAW_OPEN ?line" by code_simp
  have 3: "\<not> sublist RAW_CLOSE ?line" by code_simp
  have 4: "\<not> sublist FENCE ?line" by code_simp
  have 5: "?line = with_tokens (\<lambda>t. t) [(?a, lit ''name'')] ?b" by (simp add: lit_def)
  have 6: "list_all (\<lambda>(front, name). \<not> holds_token ascii_tables front \<and> name \<noteq> [] \<and>
                                      list_all (token_char ascii_tables) name)
             [(?a, lit ''name'')]"
    by code_simp
  have 7: "\<not> holds_token ascii_tables ?b" by code_simp
  have r: "with_tokens (\<lambda>t. RAW_OPEN @ t @ RAW_CLOSE) [(?a, lit ''name'')] ?b
           = lit ''Output: '' @ 34 # lit ''Hello, {% raw %}{{.name}}{% endraw %}!'' @ [34]"
    by (simp add: lit_def RAW_OPEN_def RAW_CLOSE_def)
  from inline_tokens_wrapped[OF 1 2 3 4 5 6 7, THEN conjunct1]
  show ?thesis unfolding r .
qed

text \<open>
  Text of the line that only looks like a token stays: in \<^verbatim>\<open>{{.a.b}} {{.c}}\<close> the
  first group of braces is no token (a dot stands in the name), the second is.
\<close>

lemma inline_near_token_example:
  "fst (rule2 ascii_tables (lit ''{{.a.b}} {{.c}}'', []))
   = lit ''{{.a.b}} {% raw %}{{.c}}{% endraw %}''"
  by code_simp

section \<open>Pattern 1\<close>

lemma find_sub_unfold:
  "find_sub l s = (if prefix l s then Some 0
                   else (case s of [] \<Rightarrow> None | c # cs \<Rightarrow> map_option Suc (find_sub l cs)))"
  by (cases s) auto

lemma lazy_scan:
  "i \<le> length s \<Longrightarrow>
   try_lens [Lit l] s [i ..< Suc (length s)] =
     (case find_sub l (drop i s) of
        None \<Rightarrow> None
      | Some n \<Rightarrow> Some ([take (i + n) s, l], drop (i + n + length l) s))"
proof (induction "length s - i" arbitrary: i)
  case 0
  then have i: "i = length s" by simp
  have "[i ..< Suc (length s)] = [i]" using i by simp
  then show ?case using i by (simp del: upt_Suc)
next
  case (Suc k)
  then have i: "i < length s" by simp
  have up: "[i ..< Suc (length s)] = i # [Suc i ..< Suc (length s)]"
    using i by (intro upt_conv_Cons) simp
  have d: "drop i s = s ! i # drop (Suc i) s" using i by (simp add: Cons_nth_drop_Suc)
  have IH: "try_lens [Lit l] s [Suc i ..< Suc (length s)] =
     (case find_sub l (drop (Suc i) s) of
        None \<Rightarrow> None
      | Some n \<Rightarrow> Some ([take (Suc i + n) s, l], drop (Suc i + n + length l) s))"
    using Suc(1)[of "Suc i"] Suc(2) i by simp
  show ?case
  proof (cases "prefix l (drop i s)")
    case True
    then show ?thesis unfolding up by (simp add: find_sub_unfold[of l "drop i s"] add.commute)
  next
    case False
    then have "find_sub l (drop i s) = map_option Suc (find_sub l (drop (Suc i) s))"
      by (simp add: d)
    then show ?thesis unfolding up using False IH
      by (simp split: option.splits)
  qed
qed

lemma rmatch_lazy:
  "rmatch [Rep False 0 (\<lambda>c. True), Lit l] s =
     (case find_sub l s of
        None \<Rightarrow> None
      | Some n \<Rightarrow> Some ([take n s, l], drop (n + length l) s))"
proof -
  have tw: "takeWhile (\<lambda>c. True) s = s" by (induction s) auto
  have "rmatch [Rep False 0 (\<lambda>c. True), Lit l] s = try_lens [Lit l] s [0 ..< Suc (length s)]"
    by (simp add: candidates_def Let_def tw del: upt_Suc)
  also have "\<dots> = (case find_sub l (drop 0 s) of
        None \<Rightarrow> None
      | Some n \<Rightarrow> Some ([take (0 + n) s, l], drop (0 + n + length l) s))"
    by (rule lazy_scan) simp
  finally show ?thesis by (simp split: option.splits)
qed

lemma rmatch_pat1:
  "rmatch (pat1 U) s =
     (if prefix FENCE s
      then (case dropWhile (is_word U) (drop 3 s) of
              [] \<Rightarrow> None
            | c # r3 \<Rightarrow>
                if c = NL
                then (case find_sub FENCE r3 of
                        None \<Rightarrow> None
                      | Some n \<Rightarrow>
                          Some ([FENCE, takeWhile (is_word U) (drop 3 s), [NL], take n r3, FENCE],
                                drop (n + 3) r3))
                else None)
      else None)"
proof -
  let ?L = "[Rep False 0 (\<lambda>c. True), Lit FENCE]"
  have tag: "rmatch (Rep True 0 (is_word U) # Lit [NL] # ?L) r =
         (if 0 \<le> length (takeWhile (is_word U) r)
          then (case rmatch (Lit [NL] # ?L) (dropWhile (is_word U) r) of
                  Some (ps, t) \<Rightarrow> Some (takeWhile (is_word U) r # ps, t)
                | None \<Rightarrow> None)
          else None)" for r
    by (rule rmatch_Rep_Lit) (simp_all add: NL_def word_facts)
  have nl: "rmatch (Lit [NL] # ?L) r2 =
         (case r2 of [] \<Rightarrow> None
          | c # r3 \<Rightarrow> if c = NL
              then (case rmatch ?L r3 of Some (ps, t) \<Rightarrow> Some ([NL] # ps, t) | None \<Rightarrow> None)
              else None)" for r2
    by (cases r2) (auto simp del: rmatch.simps(4))
  have start: "rmatch (pat1 U) s =
         (if prefix FENCE s
          then (case rmatch (Rep True 0 (is_word U) # Lit [NL] # ?L) (drop 3 s) of
                  Some (ps, t) \<Rightarrow> Some (FENCE # ps, t) | None \<Rightarrow> None)
          else None)"
    unfolding pat1_def rmatch.simps(2)[of FENCE] lit_lengths ..
  show ?thesis
  proof (cases "dropWhile (is_word U) (drop 3 s)")
    case Nil
    show ?thesis unfolding start tag nl by (simp add: Nil)
  next
    case (Cons c r3)
    show ?thesis unfolding start tag nl rmatch_lazy lit_lengths
      by (simp add: Cons split: option.splits)
  qed
qed

text \<open>What a match of pattern 1 looks like.\<close>

lemma pat1_match_shape:
  assumes "rmatch (pat1 U) s = Some (ps, t)"
  shows "\<exists>tag code. ps = [FENCE, tag, [NL], code, FENCE] \<and> list_all (is_word U) tag \<and>
                    s = FENCE @ tag @ [NL] @ code @ FENCE @ t"
proof -
  from assms obtain c r3 n where p: "prefix FENCE s"
    and dw: "dropWhile (is_word U) (drop 3 s) = c # r3" and c: "c = NL"
    and ps: "ps = [FENCE, takeWhile (is_word U) (drop 3 s), [NL], take n r3, FENCE]"
    unfolding rmatch_pat1
    by (auto split: if_splits list.splits option.splits)
  have "list_all (is_word U) (takeWhile (is_word U) (drop 3 s))"
    by (auto simp: list_all_iff dest: set_takeWhileD)
  moreover have "s = concat ps @ t" using rmatch_concat[OF assms] .
  ultimately show ?thesis unfolding ps by simp
qed

lemma bad_fence_no_match:
  assumes "\<not> list_all (is_word U) info" "NL \<notin> set info"
  shows "rmatch (pat1 U) (FENCE @ info @ NL # z) = None"
proof -
  obtain x where x: "x \<in> set info" "\<not> is_word U x"
    using assms(1) by (auto simp: list_all_iff)
  then have dw: "dropWhile (is_word U) (info @ NL # z) = dropWhile (is_word U) info @ NL # z"
    by (simp add: dropWhile_append1)
  have ne: "dropWhile (is_word U) info \<noteq> []"
    using x by (auto simp: dropWhile_eq_Nil_conv)
  then obtain c i2 where c: "dropWhile (is_word U) info = c # i2"
    by (cases "dropWhile (is_word U) info") auto
  have "c \<in> set info" using c by (metis list.set_intros(1) set_dropWhileD)
  then have "c \<noteq> NL" using assms(2) by auto
  have d3: "drop 3 (FENCE @ info @ NL # z) = info @ NL # z" by (simp add: lit_lengths)
  show ?thesis unfolding rmatch_pat1 d3 dw c using \<open>c \<noteq> NL\<close> by simp
qed


text \<open>The callback hands back the block whenever it returns, so pattern 1 hands back
  the content whenever it returns.\<close>

lemma wrap_go_templates_same: "wrap_go_templates ps = Inr r \<Longrightarrow> r = concat ps"
  by (simp add: wrap_go_templates_def Let_def split: if_splits)

lemma rule1_unchanged: "rule1 U content = Inr out \<Longrightarrow> out = content"
  unfolding rule1_def by (rule re_sub_call_unchanged[OF wrap_go_templates_same])

text \<open>A content whose only backticks are the two fences of a block with such an opening
  line: the pattern matches nowhere in it.\<close>

lemma lone_bad_fence_no_match:
  assumes bad: "\<not> list_all (is_word U) info" and nl: "NL \<notin> set info"
    and none: "96 \<notin> set (pre @ info @ body @ post)"
    and split: "pre @ FENCE @ info @ [NL] @ body @ FENCE @ post = a @ b"
  shows "rmatch (pat1 U) b = None"
proof (rule ccontr)
  assume "rmatch (pat1 U) b \<noteq> None"
  then obtain ps t where m: "rmatch (pat1 U) b = Some (ps, t)" by auto
  from pat1_match_shape[OF m] obtain tag code where
    b: "b = FENCE @ tag @ [NL] @ code @ FENCE @ t"
    by blast
  let ?doc = "pre @ FENCE @ info @ [NL] @ body @ FENCE @ post"
  have f: "count_list FENCE 96 = 3" by (simp add: lit_values)
  have z: "count_list pre 96 = 0" "count_list info 96 = 0" "count_list body 96 = 0"
    "count_list post 96 = 0"
    using none by (simp_all add: count_list_0_iff)
  have "count_list ?doc 96 = 6" by (simp add: f z NL_def)
  moreover have "count_list (a @ b) 96 \<ge> count_list a 96 + 6"
    unfolding b by (simp add: f NL_def)
  ultimately have "count_list a 96 = 0" unfolding split by simp
  then have a: "96 \<notin> set a" by (simp add: count_list_0_iff)
  have p: "96 \<notin> set pre" using none by simp
  have "takeWhile (\<lambda>c. c \<noteq> 96) (a @ 96 # (96 # 96 # tag @ [NL] @ code @ FENCE @ t))
        = takeWhile (\<lambda>c. c \<noteq> 96) a"
    by (rule takeWhile_stop) simp
  moreover have "takeWhile (\<lambda>c. c \<noteq> 96) (pre @ 96 # (96 # 96 # info @ [NL] @ body @ FENCE @ post))
        = takeWhile (\<lambda>c. c \<noteq> 96) pre"
    by (rule takeWhile_stop) simp
  moreover have "a @ 96 # (96 # 96 # tag @ [NL] @ code @ FENCE @ t)
                 = pre @ 96 # (96 # 96 # info @ [NL] @ body @ FENCE @ post)"
    using split unfolding b by (simp add: lit_values)
  ultimately have "takeWhile (\<lambda>c. c \<noteq> 96) a = takeWhile (\<lambda>c. c \<noteq> 96) pre"
    by simp
  moreover have "takeWhile (\<lambda>c. c \<noteq> 96) a = a" using a by (auto simp: takeWhile_eq_all_conv)
  moreover have "takeWhile (\<lambda>c. c \<noteq> 96) pre = pre" using p by (auto simp: takeWhile_eq_all_conv)
  ultimately have "a = pre" by simp
  then have "b = FENCE @ info @ NL # (body @ FENCE @ post)" using split by simp
  then have "rmatch (pat1 U) b = None" using bad_fence_no_match[OF bad nl] by simp
  then show False using m by simp
qed

text \<open>
  Claim C10. Pattern 1 takes a fence only where three backticks are followed by word
  characters alone and a newline: every match has this shape. Where the opening line
  of a block carries an info string that is not made of word characters only (and the
  line ends with the newline), the pattern does not match at that fence, whatever
  follows. Whenever pattern 1 returns on a content that holds such a block, the content,
  and with it the block, is as it was, whatever the body holds. And it does return,
  with the content as it was, when the two fences of the block are the only backticks
  of the content.
\<close>

theorem unrecognised_fence_not_taken:
  assumes "\<not> list_all (is_word U) info" and "NL \<notin> set info"
  shows "rmatch (pat1 U) (FENCE @ info @ [NL] @ rest) = None \<and>
         (\<forall>ps t. rmatch (pat1 U) s = Some (ps, t) \<longrightarrow>
            (\<exists>tag code. ps = [FENCE, tag, [NL], code, FENCE] \<and> list_all (is_word U) tag \<and>
                         s = FENCE @ tag @ [NL] @ code @ FENCE @ t)) \<and>
         (\<forall>out. rule1 U (pre @ FENCE @ info @ [NL] @ body @ FENCE @ post) = Inr out \<longrightarrow>
            out = pre @ FENCE @ info @ [NL] @ body @ FENCE @ post) \<and>
         (96 \<notin> set (pre @ info @ body @ post) \<longrightarrow>
            rule1 U (pre @ FENCE @ info @ [NL] @ body @ FENCE @ post)
            = Inr (pre @ FENCE @ info @ [NL] @ body @ FENCE @ post))"
proof -
  have 1: "rmatch (pat1 U) (FENCE @ info @ [NL] @ rest) = None"
    using bad_fence_no_match[OF assms, of rest] by simp
  have 2: "\<forall>ps t. rmatch (pat1 U) s = Some (ps, t) \<longrightarrow>
            (\<exists>tag code. ps = [FENCE, tag, [NL], code, FENCE] \<and> list_all (is_word U) tag \<and>
                         s = FENCE @ tag @ [NL] @ code @ FENCE @ t)"
    using pat1_match_shape by blast
  have 3: "\<forall>out. rule1 U (pre @ FENCE @ info @ [NL] @ body @ FENCE @ post) = Inr out \<longrightarrow>
            out = pre @ FENCE @ info @ [NL] @ body @ FENCE @ post"
    using rule1_unchanged by blast
  have 4: "rule1 U (pre @ FENCE @ info @ [NL] @ body @ FENCE @ post)
            = Inr (pre @ FENCE @ info @ [NL] @ body @ FENCE @ post)"
    if "96 \<notin> set (pre @ info @ body @ post)"
    unfolding rule1_def
    by (rule re_sub_call_no_match) (rule lone_bad_fence_no_match[OF assms that])
  show ?thesis using 1 2 3 4 by blast
qed

text \<open>A block with the opening line \<^verbatim>\<open>```c++\<close> and a marker in its body.\<close>

theorem unrecognised_fence_not_taken_witness:
  "rmatch (pat1 ascii_tables) (FENCE @ lit ''c++'' @ [NL] @ lit ''{{.x}}'') = None \<and>
   rule1 ascii_tables
     (lit ''a'' @ [NL] @ FENCE @ lit ''c++'' @ [NL] @ (lit ''{{.x}}'' @ [NL]) @ FENCE @ [NL])
   = Inr (lit ''a'' @ [NL] @ FENCE @ lit ''c++'' @ [NL] @ (lit ''{{.x}}'' @ [NL]) @ FENCE @ [NL])"
proof -
  have 1: "\<not> list_all (is_word ascii_tables) (lit ''c++'')" by code_simp
  have 2: "NL \<notin> set (lit ''c++'')" by (simp add: lit_def NL_def)
  have 3: "96 \<notin> set ((lit ''a'' @ [NL]) @ lit ''c++'' @ (lit ''{{.x}}'' @ [NL]) @ [NL])"
    by (simp add: lit_def NL_def)
  from unrecognised_fence_not_taken[OF 1 2,
      of "lit ''{{.x}}''" _ "lit ''a'' @ [NL]" "lit ''{{.x}}'' @ [NL]" "[NL]"] 3
  show ?thesis by simp
qed

text \<open>
  Claim C3. The block of the specification's example, \<^verbatim>\<open>```go\<close>, the line
  \<^verbatim>\<open>fmt.Println({{.Value}})\<close> and the closing fence, holds a marker and no
  \<^verbatim>\<open>{% raw %}\<close>, so the callback comes to line 28: pattern 1 raises, and so does all
  of \<^verbatim>\<open>fix_file\<close> after the read. No wrapped block is produced.
\<close>

theorem marked_block_raises:
  "rule1 ascii_tables
     (FENCE @ lit ''go'' @ [NL] @ lit ''fmt.Println({{.Value}})'' @ [NL] @ FENCE)
   = Inl SyntaxError \<and>
   apply_rules ascii_tables
     (FENCE @ lit ''go'' @ [NL] @ lit ''fmt.Println({{.Value}})'' @ [NL] @ FENCE)
   = Inl SyntaxError"
proof -
  have "rule1 ascii_tables
     (FENCE @ lit ''go'' @ [NL] @ lit ''fmt.Println({{.Value}})'' @ [NL] @ FENCE)
   = Inl SyntaxError"
    by code_simp
  then show ?thesis by (simp add: apply_rules_def)
qed

section \<open>The rules only insert\<close>

lemma inserted_refl: "inserted M x x"
  by (induction x) (auto intro: inserted.intros)

lemma inserted_append:
  "inserted M a b \<Longrightarrow> inserted M c d \<Longrightarrow> inserted M (a @ c) (b @ d)"
proof (induction rule: inserted.induct)
  case ins_nil
  then show ?case by simp
next
  case (ins_keep x y c')
  then show ?case by (simp add: inserted.ins_keep)
next
  case (ins_put m x y)
  then show ?case using inserted.ins_put[of m M "x @ c" "y @ d"] by simp
qed

lemma inserted_subseq: "inserted M x y \<Longrightarrow> subseq x y"
proof (induction rule: inserted.induct)
  case ins_nil
  show ?case by simp
next
  case (ins_keep x y c)
  then show ?case by simp
next
  case (ins_put m x y)
  from ins_put.IH show ?case by (induction m) auto
qed

lemma subseq_grows_only: "subseq x y \<Longrightarrow> grows_only x y"
  unfolding grows_only_def
  using list_emb_length[of "(=)" x y] subseq_same_length[of x y] by auto

lemma inserted_grows_only: "inserted M x y \<Longrightarrow> grows_only x y"
  by (rule subseq_grows_only) (rule inserted_subseq)

lemma wrap_raw_inserted:
  "inserted {RAW_OPEN, RAW_CLOSE} t out \<Longrightarrow>
   inserted {RAW_OPEN, RAW_CLOSE} (concat ps @ t) (wrap_raw ps @ out)"
proof -
  assume t: "inserted {RAW_OPEN, RAW_CLOSE} t out"
  have "inserted {RAW_OPEN, RAW_CLOSE} t (RAW_CLOSE @ out)"
    using t inserted.ins_put[of RAW_CLOSE "{RAW_OPEN, RAW_CLOSE}" t out] by simp
  then have "inserted {RAW_OPEN, RAW_CLOSE} (concat ps @ t) (concat ps @ RAW_CLOSE @ out)"
    by (intro inserted_append inserted_refl)
  then have "inserted {RAW_OPEN, RAW_CLOSE} (concat ps @ t) (RAW_OPEN @ concat ps @ RAW_CLOSE @ out)"
    using inserted.ins_put[of RAW_OPEN "{RAW_OPEN, RAW_CLOSE}" "concat ps @ t"
            "concat ps @ RAW_CLOSE @ out"]
    by simp
  then show ?thesis by (simp add: wrap_raw_def)
qed

lemma re_sub_inserted: "inserted {RAW_OPEN, RAW_CLOSE} s (re_sub pat wrap_raw s)"
proof (induction s rule: length_induct)
  case (1 s)
  then have IH: "\<And>t. length t < length s \<Longrightarrow>
                   inserted {RAW_OPEN, RAW_CLOSE} t (re_sub pat wrap_raw t)"
    by blast
  have skip: "inserted {RAW_OPEN, RAW_CLOSE} s
                (case s of [] \<Rightarrow> [] | c # cs \<Rightarrow> c # re_sub pat wrap_raw cs)"
  proof (cases s)
    case Nil
    then show ?thesis by (simp add: inserted.ins_nil)
  next
    case (Cons c cs)
    then show ?thesis using IH[of cs] by (simp add: inserted.ins_keep)
  qed
  show ?case
  proof (cases "rmatch pat s")
    case None
    then show ?thesis using skip by (simp add: re_sub_None)
  next
    case (Some a)
    obtain ps t where a: "a = (ps, t)" by (cases a)
    show ?thesis
    proof (cases "length t < length s")
      case True
      have m: "rmatch pat s = Some (ps, t)" using Some a by simp
      have s: "s = concat ps @ t" using rmatch_concat[OF m] .
      have "inserted {RAW_OPEN, RAW_CLOSE} (concat ps @ t) (wrap_raw ps @ re_sub pat wrap_raw t)"
        using IH[OF True] by (rule wrap_raw_inserted)
      then show ?thesis unfolding re_sub_Some[OF m True] using s by simp
    next
      case False
      then show ?thesis using Some a skip by (simp add: re_sub_empty)
    qed
  qed
qed

lemma fix_line_inserted: "inserted {RAW_OPEN, RAW_CLOSE} line (fix_line U line)"
  by (simp add: fix_line_def inserted_refl re_sub_inserted)

lemma join_nl_inserted:
  "inserted M (join_nl ls) (join_nl (map f ls))" if "\<And>l. inserted M l (f l)"
proof (induction ls rule: join_nl.induct)
  case 1
  show ?case by (simp add: inserted.ins_nil)
next
  case (2 l)
  show ?case using that by simp
next
  case (3 l m ls)
  have "inserted M (NL # join_nl (m # ls)) (NL # join_nl (map f (m # ls)))"
    using 3 by (rule inserted.ins_keep)
  then have "inserted M (l @ NL # join_nl (m # ls)) (f l @ NL # join_nl (map f (m # ls)))"
    using that by (intro inserted_append)
  then show ?case by simp
qed

lemma rule2_inserted:
  "inserted {RAW_OPEN, RAW_CLOSE} content (fst (rule2 U (content, changes)))"
proof -
  have "inserted {RAW_OPEN, RAW_CLOSE} (join_nl (split_nl content))
          (join_nl (map (fix_line U) (split_nl content)))"
    by (rule join_nl_inserted) (rule fix_line_inserted)
  then show ?thesis by (simp add: rule2_lines join_split_nl)
qed

lemma rule3_inserted: "inserted {RAW_OPEN, RAW_CLOSE} content (rule3 content)"
  unfolding rule3_def by (rule re_sub_inserted)

lemma rule4_inserted: "inserted {RAW_OPEN, RAW_CLOSE} content (rule4 U content)"
  unfolding rule4_def by (rule re_sub_inserted)

text \<open>
  Claim C9. Each of patterns 2, 3 and 4 returns its input with \<^verbatim>\<open>{% raw %}\<close> and
  \<^verbatim>\<open>{% endraw %}\<close> put in at some places: every character of the input is kept, in
  order, and nothing but these two texts is added. So the input is a subsequence of
  the output, the output is at least as long, and it is as long only when it is the
  input. The same holds of the three patterns one after the other, the two texts
  being put in in three rounds. Pattern 1 adds nothing at all: whenever it returns, it
  returns its input. So whenever the four rules in order return, the final content is
  the original with the two texts put in, in three rounds; the original is a
  subsequence of it, it is at least as long, and it is as long only when nothing has
  changed.
\<close>

theorem rules_only_insert:
  "inserted {RAW_OPEN, RAW_CLOSE} content (fst (rule2 U (content, changes))) \<and>
   inserted {RAW_OPEN, RAW_CLOSE} content (rule3 content) \<and>
   inserted {RAW_OPEN, RAW_CLOSE} content (rule4 U content) \<and>
   grows_only content (fst (rule2 U (content, changes))) \<and>
   grows_only content (rule3 content) \<and>
   grows_only content (rule4 U content) \<and>
   (inserted {RAW_OPEN, RAW_CLOSE} OO inserted {RAW_OPEN, RAW_CLOSE} OO
    inserted {RAW_OPEN, RAW_CLOSE})
     content (rule4 U (rule3 (fst (rule2 U (content, changes))))) \<and>
   grows_only content (rule4 U (rule3 (fst (rule2 U (content, changes))))) \<and>
   (\<forall>content1. rule1 U content = Inr content1 \<longrightarrow> content1 = content) \<and>
   (\<forall>content4 notes. apply_rules U content = Inr (content4, notes) \<longrightarrow>
      (inserted {RAW_OPEN, RAW_CLOSE} OO inserted {RAW_OPEN, RAW_CLOSE} OO
       inserted {RAW_OPEN, RAW_CLOSE}) content content4 \<and>
      grows_only content content4)"
proof -
  let ?M = "{RAW_OPEN, RAW_CLOSE}"
  have three: "(inserted ?M OO inserted ?M OO inserted ?M) c (rule4 U (rule3 (fst (rule2 U (c, ch))))) \<and>
               grows_only c (rule4 U (rule3 (fst (rule2 U (c, ch)))))" for c ch
  proof -
    let ?c2 = "fst (rule2 U (c, ch))"
    have a: "inserted ?M c ?c2" by (rule rule2_inserted)
    have b: "inserted ?M ?c2 (rule3 ?c2)" by (rule rule3_inserted)
    have c: "inserted ?M (rule3 ?c2) (rule4 U (rule3 ?c2))" by (rule rule4_inserted)
    have "(inserted ?M OO inserted ?M OO inserted ?M) c (rule4 U (rule3 ?c2))"
      using a b c by blast
    moreover have "subseq c (rule4 U (rule3 ?c2))"
      using inserted_subseq[OF a] inserted_subseq[OF b] inserted_subseq[OF c]
      by (meson subseq_order.order_trans)
    ultimately show ?thesis by (simp add: subseq_grows_only)
  qed
  have all: "(inserted ?M OO inserted ?M OO inserted ?M) content content4 \<and>
             grows_only content content4"
    if "apply_rules U content = Inr (content4, noted)" for content4 noted
  proof -
    from that obtain content1 where r1: "rule1 U content = Inr content1"
      and c4: "content4 = rule4 U (rule3 (fst (rule2 U (content1, []))))"
      by (auto simp: apply_rules_def Let_def split: sum.splits)
    have c1: "content1 = content" using rule1_unchanged[OF r1] .
    show ?thesis unfolding c4 c1 by (rule three)
  qed
  have 1: "inserted ?M content (fst (rule2 U (content, changes)))" by (rule rule2_inserted)
  have 2: "inserted ?M content (rule3 content)" by (rule rule3_inserted)
  have 3: "inserted ?M content (rule4 U content)" by (rule rule4_inserted)
  have 4: "\<forall>content1. rule1 U content = Inr content1 \<longrightarrow> content1 = content"
    using rule1_unchanged by blast
  have 5: "\<forall>content4 notes. apply_rules U content = Inr (content4, notes) \<longrightarrow>
      (inserted ?M OO inserted ?M OO inserted ?M) content content4 \<and>
      grows_only content content4"
    using all by blast
  show ?thesis
    using 1 2 3 inserted_grows_only[OF 1] inserted_grows_only[OF 2] inserted_grows_only[OF 3]
      three[of content changes] 4 5
    by simp
qed

theorem rules_only_insert_witness:
  "apply_rules ascii_tables (lit ''a {{.b}} ${{ c }} {{K: v}}'')
   = Inr (lit ''a {% raw %}{{.b}}{% endraw %} {% raw %}${{ c }}{% endraw %} {% raw %}{{K: v}}{% endraw %}'',
          [Wrapped_go_template 1]) \<and>
   grows_only (lit ''a {{.b}} ${{ c }} {{K: v}}'')
     (lit ''a {% raw %}{{.b}}{% endraw %} {% raw %}${{ c }}{% endraw %} {% raw %}{{K: v}}{% endraw %}'') \<and>
   inserted {RAW_OPEN, RAW_CLOSE} (lit ''url: ${{ secrets.TOKEN }}'')
     (lit ''url: {% raw %}${{ secrets.TOKEN }}{% endraw %}'')"
proof -
  have a: "apply_rules ascii_tables (lit ''a {{.b}} ${{ c }} {{K: v}}'')
   = Inr (lit ''a {% raw %}{{.b}}{% endraw %} {% raw %}${{ c }}{% endraw %} {% raw %}{{K: v}}{% endraw %}'',
          [Wrapped_go_template 1])"
    by code_simp
  have r: "rule3 (lit ''url: ${{ secrets.TOKEN }}'')
           = lit ''url: {% raw %}${{ secrets.TOKEN }}{% endraw %}''"
    by code_simp
  from rules_only_insert[of "lit ''a {{.b}} ${{ c }} {{K: v}}''" ascii_tables "[]"] a
  have 1: "grows_only (lit ''a {{.b}} ${{ c }} {{K: v}}'')
     (lit ''a {% raw %}{{.b}}{% endraw %} {% raw %}${{ c }}{% endraw %} {% raw %}{{K: v}}{% endraw %}'')"
    by blast
  from rules_only_insert[of "lit ''url: ${{ secrets.TOKEN }}''" ascii_tables "[]"]
  have 2: "inserted {RAW_OPEN, RAW_CLOSE} (lit ''url: ${{ secrets.TOKEN }}'')
     (rule3 (lit ''url: ${{ secrets.TOKEN }}''))"
    by blast
  show ?thesis using a 1 2 unfolding r by blast
qed

section \<open>The run of main\<close>









section \<open>A second run\<close>

text \<open>
  Claim C1. Pattern 3 does not look for \<^verbatim>\<open>{% raw %}\<close> around an expression. On the
  specification's example \<^verbatim>\<open>url: ${{ secrets.TOKEN }}\<close> it wraps the expression, and
  on its own output it wraps the same expression again; patterns 2 and 4 leave all
  three texts as they are. So a second run over the result of a first run changes the
  content.
\<close>

theorem second_run_wraps_again:
  "rule3 (lit ''url: ${{ secrets.TOKEN }}'')
   = lit ''url: {% raw %}${{ secrets.TOKEN }}{% endraw %}'' \<and>
   rule3 (lit ''url: {% raw %}${{ secrets.TOKEN }}{% endraw %}'')
   = lit ''url: {% raw %}{% raw %}${{ secrets.TOKEN }}{% endraw %}{% endraw %}'' \<and>
   fst (rule2 ascii_tables (lit ''url: ${{ secrets.TOKEN }}'', []))
   = lit ''url: ${{ secrets.TOKEN }}'' \<and>
   fst (rule2 ascii_tables (lit ''url: {% raw %}${{ secrets.TOKEN }}{% endraw %}'', []))
   = lit ''url: {% raw %}${{ secrets.TOKEN }}{% endraw %}'' \<and>
   rule4 ascii_tables (lit ''url: {% raw %}${{ secrets.TOKEN }}{% endraw %}'')
   = lit ''url: {% raw %}${{ secrets.TOKEN }}{% endraw %}'' \<and>
   rule4 ascii_tables (lit ''url: {% raw %}{% raw %}${{ secrets.TOKEN }}{% endraw %}{% endraw %}'')
   = lit ''url: {% raw %}{% raw %}${{ secrets.TOKEN }}{% endraw %}{% endraw %}''"
proof -
  have 1: "rule3 (lit ''url: ${{ secrets.TOKEN }}'')
           = lit ''url: {% raw %}${{ secrets.TOKEN }}{% endraw %}''"
    by code_simp
  have 2: "rule3 (lit ''url: {% raw %}${{ secrets.TOKEN }}{% endraw %}'')
           = lit ''url: {% raw %}{% raw %}${{ secrets.TOKEN }}{% endraw %}{% endraw %}''"
    by code_simp
  have 3: "fst (rule2 ascii_tables (lit ''url: ${{ secrets.TOKEN }}'', []))
           = lit ''url: ${{ secrets.TOKEN }}''"
    by code_simp
  have 4: "fst (rule2 ascii_tables (lit ''url: {% raw %}${{ secrets.TOKEN }}{% endraw %}'', []))
           = lit ''url: {% raw %}${{ secrets.TOKEN }}{% endraw %}''"
    by code_simp
  have 5: "rule4 ascii_tables (lit ''url: {% raw %}${{ secrets.TOKEN }}{% endraw %}'')
           = lit ''url: {% raw %}${{ secrets.TOKEN }}{% endraw %}''"
    by code_simp
  have 6: "rule4 ascii_tables (lit ''url: {% raw %}{% raw %}${{ secrets.TOKEN }}{% endraw %}{% endraw %}'')
           = lit ''url: {% raw %}{% raw %}${{ secrets.TOKEN }}{% endraw %}{% endraw %}''"
    by code_simp
  show ?thesis using 1 2 3 4 5 6 by simp
qed

section \<open>The patterns consume text\<close>

text \<open>A pattern that starts with a non-empty literal never matches the empty string,
  so the branch of \<open>re_sub\<close> for empty matches is not taken by any of the rules.\<close>

lemma literal_start_consumes:
  assumes "rmatch (Lit l # r) s = Some (ps, t)" "l \<noteq> []"
  shows "length t < length s"
proof -
  have "s = concat ps @ t" using assms(1) by (rule rmatch_concat)
  moreover have "list_all2 fits (Lit l # r) ps" using assms(1) by (rule rmatch_fits)
  then obtain qs where "ps = l # qs" by (auto simp: list_all2_Cons1)
  ultimately have "length s = length l + length (concat qs) + length t" by simp
  then show ?thesis using assms(2) by simp
qed

lemma patterns_consume:
  "rmatch (pat1 U) s = Some (ps, t) \<Longrightarrow> length t < length s"
  "rmatch (pat2 U) s = Some (ps, t) \<Longrightarrow> length t < length s"
  "rmatch pat3 s = Some (ps, t) \<Longrightarrow> length t < length s"
  "rmatch (pat4 U) s = Some (ps, t) \<Longrightarrow> length t < length s"
  unfolding pat1_def pat2_def pat3_def pat4_def
  by (erule literal_start_consumes, simp add: lit_values)+

end
